theory Spec2Isabelle
  imports Complex_Main "HOL-Library.AList" "HOL-Library.Char_ord" "HOL-Library.List_Lexorder"
begin

section \<open>Hybrid retrieval index (rag\_engine.py): the model\<close>

text \<open>
  Conventions of the embedding.
  \<^item> A Python \<open>str\<close> is a \<open>string\<close>: a character is a code point below 256, and
    the character classes (\<open>\s\<close> and \<open>str.split\<close>, \<open>\w\<close>, \<open>str.lower\<close>) are Python's
    Unicode classes on that range.
  \<^item> A Python \<open>float\<close> is a \<open>real\<close>: scores are exact, rounding is not modelled.
  \<^item> A Python \<open>int\<close> parameter is an \<open>int\<close>; lengths, counters and positions are \<open>nat\<close>.
  \<^item> A \<open>dict\<close> whose order is observable (manifest, file hashes, fused scores) is an
    association list in insertion order, written with \<open>AList.update\<close> for \<open>d[k] = v\<close> and
    \<open>AList.delete\<close> for \<open>d.pop(k, None)\<close>; a \<open>Counter\<close> and the document-frequency table
    are maps.
  \<^item> Every \<open>raise\<close> is a value \<open>Inl e\<close> of the result type \<open>error + 'a\<close>.
  \<^item> The external collaborators are data: a file of the source directory carries the
    digest that \<open>_file_hash\<close> computes from its bytes and the text that the PDF or Word
    parser extracts from it; the embedder is a function \<open>emb\<close> from a text to its vector,
    applied to each text of a batch in order.
\<close>

datatype error = ValueError | KeyError | IndexError | ZeroDivisionError | FileNotFoundError

subsection \<open>Strings\<close>

text \<open>\<open>str.isspace\<close>, which \<open>str.split\<close>, \<open>str.strip\<close> and the class \<open>\s\<close> follow.\<close>

definition isspace :: "char \<Rightarrow> bool" where
  "isspace c = (c \<in> set [CHR 0x09, CHR 0x0A, CHR 0x0B, CHR 0x0C, CHR 0x0D,
                           CHR 0x1C, CHR 0x1D, CHR 0x1E, CHR 0x1F, CHR '' '',
                           CHR 0x85, CHR 0xA0])"

text \<open>\<open>s.split()\<close>: the maximal runs of non-whitespace characters.\<close>

fun split_acc :: "string \<Rightarrow> string \<Rightarrow> string list" where
  "split_acc w [] = (if w = [] then [] else [w])"
| "split_acc w (c # cs) =
     (if isspace c then (if w = [] then split_acc [] cs else w # split_acc [] cs)
      else split_acc (w @ [c]) cs)"

definition str_split :: "string \<Rightarrow> string list" where
  "str_split s = split_acc [] s"

text \<open>\<open>s.strip()\<close>.\<close>

definition str_strip :: "string \<Rightarrow> string" where
  "str_strip s = rev (dropWhile isspace (rev (dropWhile isspace s)))"

text \<open>\<open>" ".join(ws)\<close>.\<close>

fun join_space :: "string list \<Rightarrow> string" where
  "join_space [] = []"
| "join_space [w] = w"
| "join_space (w # ws) = w @ '' '' @ join_space ws"

text \<open>
  \<open>str.lower\<close>: the capital letters \<open>A\<close> to \<open>Z\<close> and those from 0xC0 to 0xDE (the
  multiplication sign 0xD7 is not one) move up by 32.
\<close>

definition lower_char :: "char \<Rightarrow> char" where
  "lower_char c =
     (let n = (of_char c :: nat)
      in if (65 \<le> n \<and> n \<le> 90) \<or> (192 \<le> n \<and> n \<le> 222 \<and> n \<noteq> 215)
         then char_of (n + 32) else c)"

definition str_lower :: "string \<Rightarrow> string" where
  "str_lower s = map lower_char s"

text \<open>
  The class \<open>\w\<close> of a \<open>str\<close> pattern: the alphanumeric characters and the underscore.
  Beyond ASCII these are the letters 0xAA, 0xB5, 0xBA, 0xC0 to 0xD6, 0xD8 to 0xF6 and
  0xF8 to 0xFF, the superscript digits 0xB2, 0xB3, 0xB9 and the fractions 0xBC to 0xBE.
\<close>

definition is_word_char :: "char \<Rightarrow> bool" where
  "is_word_char c = (let n = (of_char c :: nat) in
     (48 \<le> n \<and> n \<le> 57) \<or> (65 \<le> n \<and> n \<le> 90) \<or> n = 95 \<or> (97 \<le> n \<and> n \<le> 122) \<or>
     n = 170 \<or> n = 178 \<or> n = 179 \<or> n = 181 \<or> n = 185 \<or> n = 186 \<or>
     (188 \<le> n \<and> n \<le> 190) \<or> (192 \<le> n \<and> n \<le> 214) \<or> (216 \<le> n \<and> n \<le> 246) \<or>
     (248 \<le> n \<and> n \<le> 255))"

text \<open>
  \<open>_SENTENCE_RE.split(text)\<close> with \<open>_SENTENCE_RE = (?<=[.!?])\s+\<close>: a match is a maximal
  whitespace run that directly follows one of \<open>.\<close>, \<open>!\<close>, \<open>?\<close>. The first argument says
  that such a run is being consumed, the second is the piece read so far.
\<close>

fun re_split_acc :: "bool \<Rightarrow> string \<Rightarrow> string \<Rightarrow> string list" where
  "re_split_acc skipping cur [] = [cur]"
| "re_split_acc True cur (c # cs) =
     (if isspace c then re_split_acc True cur cs else re_split_acc False (cur @ [c]) cs)"
| "re_split_acc False cur (c # cs) =
     (if isspace c \<and> cur \<noteq> [] \<and> last cur \<in> set ''.!?''
      then cur # re_split_acc True [] cs
      else re_split_acc False (cur @ [c]) cs)"

definition SENTENCE_RE_split :: "string \<Rightarrow> string list" where
  "SENTENCE_RE_split s = re_split_acc False [] s"

text \<open>\<open>_TOKEN_RE.findall(s)\<close> with \<open>_TOKEN_RE = \w+\<close>.\<close>

fun findall_acc :: "string \<Rightarrow> string \<Rightarrow> string list" where
  "findall_acc w [] = (if w = [] then [] else [w])"
| "findall_acc w (c # cs) =
     (if is_word_char c then findall_acc (w @ [c]) cs
      else (if w = [] then findall_acc [] cs else w # findall_acc [] cs))"

definition tokenize :: "string \<Rightarrow> string list" where
  "tokenize s = findall_acc [] (str_lower s)"

text \<open>Slices \<open>xs[i:]\<close> and \<open>xs[:k]\<close>, with Python's reading of a negative bound.\<close>

definition slice_from :: "'a list \<Rightarrow> int \<Rightarrow> 'a list" where
  "slice_from xs i = (if i < 0 then drop (length xs - nat (- i)) xs else drop (nat i) xs)"

definition slice_to :: "'a list \<Rightarrow> int \<Rightarrow> 'a list" where
  "slice_to xs k = (if k < 0 then take (length xs - nat (- k)) xs else take (nat k) xs)"

subsection \<open>config.py\<close>

definition CHUNK_SIZE :: int where "CHUNK_SIZE = 400"
definition CHUNK_OVERLAP :: int where "CHUNK_OVERLAP = 50"
definition SUPPORTED_EXTENSIONS :: "string list" where
  "SUPPORTED_EXTENSIONS = [''.pdf'', ''.docx'']"

subsection \<open>Chunking\<close>

text \<open>
  The loop of \<open>chunk_text\<close> over the sentences; \<open>chunks\<close> and \<open>current_words\<close> are
  its two variables.
\<close>

fun chunk_loop :: "int \<Rightarrow> int \<Rightarrow> string list \<Rightarrow> string list \<Rightarrow> string list \<Rightarrow> string list" where
  "chunk_loop chunk_size overlap chunks current_words [] =
     (if current_words \<noteq> [] then chunks @ [join_space current_words] else chunks)"
| "chunk_loop chunk_size overlap chunks current_words (sentence # sentences) =
     (let words = str_split sentence in
      if words = [] then chunk_loop chunk_size overlap chunks current_words sentences
      else if int (length current_words) + int (length words) > chunk_size \<and> current_words \<noteq> []
      then chunk_loop chunk_size overlap (chunks @ [join_space current_words])
             ((if overlap \<noteq> 0 then slice_from current_words (- overlap) else []) @ words) sentences
      else chunk_loop chunk_size overlap chunks (current_words @ words) sentences)"

definition chunk_text :: "string \<Rightarrow> int \<Rightarrow> int \<Rightarrow> string list" where
  "chunk_text s chunk_size overlap = chunk_loop chunk_size overlap [] [] (SENTENCE_RE_split s)"

subsection \<open>BM25\<close>

record BM25 =
  k1 :: real
  b :: real
  doc_freqs :: "string \<rightharpoonup> nat"
  doc_lens :: "nat list"
  avg_dl :: real
  tf :: "(string \<rightharpoonup> nat) list"
  n_docs :: nat

definition BM25_init :: "real \<Rightarrow> real \<Rightarrow> BM25" where
  "BM25_init k1_arg b_arg =
     \<lparr>k1 = k1_arg, b = b_arg, doc_freqs = Map.empty, doc_lens = [], avg_dl = 0, tf = [], n_docs = 0\<rparr>"

text \<open>\<open>BM25()\<close>, with the default arguments of the constructor.\<close>

definition BM25_new :: BM25 where
  "BM25_new = BM25_init 1.5 0.75"

text \<open>\<open>d.get(k, dflt)\<close> on a map.\<close>

definition get_or :: "('k \<rightharpoonup> 'a) \<Rightarrow> 'k \<Rightarrow> 'a \<Rightarrow> 'a" where
  "get_or d k dflt = (case d k of None \<Rightarrow> dflt | Some v \<Rightarrow> v)"

definition Counter :: "string list \<Rightarrow> (string \<rightharpoonup> nat)" where
  "Counter tokens = fold (\<lambda>t c. c(t \<mapsto> get_or c t 0 + 1)) tokens Map.empty"

text \<open>\<open>for term in set(tokens): df[term] = df.get(term, 0) + 1\<close>.\<close>

definition df_count :: "string list \<Rightarrow> (string \<rightharpoonup> nat) \<Rightarrow> (string \<rightharpoonup> nat)" where
  "df_count tokens df = fold (\<lambda>term d. d(term \<mapsto> get_or d term 0 + 1)) (remdups tokens) df"

fun fit_loop :: "string list \<Rightarrow> (string \<rightharpoonup> nat) list \<Rightarrow> nat list \<Rightarrow> (string \<rightharpoonup> nat)
    \<Rightarrow> (string \<rightharpoonup> nat) list \<times> nat list \<times> (string \<rightharpoonup> nat)" where
  "fit_loop [] tfs lens df = (tfs, lens, df)"
| "fit_loop (t # texts) tfs lens df =
     (let tokens = tokenize t
      in fit_loop texts (tfs @ [Counter tokens]) (lens @ [length tokens]) (df_count tokens df))"

definition fit :: "BM25 \<Rightarrow> string list \<Rightarrow> BM25" where
  "fit self texts =
     (case fit_loop texts [] [] Map.empty of (tfs, lens, df) \<Rightarrow>
        self\<lparr>tf := tfs, doc_lens := lens, doc_freqs := df, n_docs := length texts,
             avg_dl := real (sum_list lens) / real (max (length texts) 1)\<rparr>)"

text \<open>
  The inner loop of \<open>search\<close>, over \<open>enumerate(self._tf)\<close>, for one query term. The
  list reads and the two divisions fail as Python's do.
\<close>

fun score_docs :: "BM25 \<Rightarrow> string \<Rightarrow> real \<Rightarrow> (nat \<times> (string \<rightharpoonup> nat)) list \<Rightarrow> real list
    \<Rightarrow> error + real list" where
  "score_docs self term idf [] scores = Inr scores"
| "score_docs self term idf ((i, tfi) # rest) scores =
     (case tfi term of
        None \<Rightarrow> score_docs self term idf rest scores
      | Some freq \<Rightarrow>
          if \<not> i < length (doc_lens self) then Inl IndexError
          else if avg_dl self = 0 then Inl ZeroDivisionError
          else
            let dl = doc_lens self ! i;
                numerator = real freq * (k1 self + 1);
                denominator = real freq + k1 self * (1 - b self + b self * real dl / avg_dl self)
            in if \<not> i < length scores then Inl IndexError
               else if denominator = 0 then Inl ZeroDivisionError
               else score_docs self term idf rest
                      (scores[i := scores ! i + idf * numerator / denominator]))"

text \<open>The outer loop, over the query tokens; \<open>math.log\<close> raises outside its domain.\<close>

fun score_terms :: "BM25 \<Rightarrow> string list \<Rightarrow> real list \<Rightarrow> error + real list" where
  "score_terms self [] scores = Inr scores"
| "score_terms self (term # terms) scores =
     (case doc_freqs self term of
        None \<Rightarrow> score_terms self terms scores
      | Some df \<Rightarrow>
          let x = (real (n_docs self) - real df + 0.5) / (real df + 0.5) + 1.0
          in if x \<le> 0 then Inl ValueError
             else (case score_docs self term (ln x) (enumerate 0 (tf self)) scores of
                     Inl e \<Rightarrow> Inl e
                   | Inr scores' \<Rightarrow> score_terms self terms scores'))"

definition search :: "BM25 \<Rightarrow> string \<Rightarrow> int \<Rightarrow> error + (nat \<times> real) list" where
  "search self query top_k =
     (case score_terms self (tokenize query) (replicate (n_docs self) 0) of
        Inl e \<Rightarrow> Inl e
      | Inr scores \<Rightarrow>
          let ranked = sort_key (\<lambda>x. - snd x) (enumerate 0 scores)
          in Inr (filter (\<lambda>x. snd x > 0) (slice_to ranked top_k)))"

subsection \<open>Reciprocal rank fusion\<close>

text \<open>\<open>scores.get(doc_id, 0.0)\<close> on an association list.\<close>

definition score_of :: "('d \<times> real) list \<Rightarrow> 'd \<Rightarrow> real" where
  "score_of scores doc_id = (case map_of scores doc_id of None \<Rightarrow> 0 | Some v \<Rightarrow> v)"

fun rrf_ranked :: "int \<Rightarrow> (nat \<times> ('d \<times> real)) list \<Rightarrow> ('d \<times> real) list \<Rightarrow> error + ('d \<times> real) list" where
  "rrf_ranked k [] scores = Inr scores"
| "rrf_ranked k ((rank, (doc_id, _)) # rest) scores =
     (if k + int rank + 1 = 0 then Inl ZeroDivisionError
      else rrf_ranked k rest
             (AList.update doc_id (score_of scores doc_id + 1.0 / real_of_int (k + int rank + 1)) scores))"

fun rrf_lists :: "int \<Rightarrow> ('d \<times> real) list list \<Rightarrow> ('d \<times> real) list \<Rightarrow> error + ('d \<times> real) list" where
  "rrf_lists k [] scores = Inr scores"
| "rrf_lists k (ranked # ranked_lists) scores =
     (case rrf_ranked k (enumerate 0 ranked) scores of
        Inl e \<Rightarrow> Inl e
      | Inr scores' \<Rightarrow> rrf_lists k ranked_lists scores')"

definition rrf_fuse :: "('d \<times> real) list list \<Rightarrow> int \<Rightarrow> error + ('d \<times> real) list" where
  "rrf_fuse ranked_lists k =
     (case rrf_lists k ranked_lists [] of
        Inl e \<Rightarrow> Inl e
      | Inr scores \<Rightarrow> Inr (sort_key (\<lambda>x. - snd x) scores))"

subsection \<open>The source directory\<close>

record src_file =
  fname :: string
  digest :: string
  body :: string

type_synonym directory = "src_file list"

text \<open>\<open>PurePath.suffix\<close>: the part of the name from its last dot, unless that dot is the
  first or the last character.\<close>

definition path_suffix :: "string \<Rightarrow> string" where
  "path_suffix name =
     (let ext = rev (takeWhile (\<lambda>c. c \<noteq> CHR ''.'') (rev name))
      in if ext \<noteq> [] \<and> length ext + 1 < length name then CHR ''.'' # ext else [])"

definition supported :: "string \<Rightarrow> bool" where
  "supported name = (str_lower (path_suffix name) \<in> set SUPPORTED_EXTENSIONS)"

text \<open>\<open>sorted(folder.iterdir())\<close>.\<close>

definition iterdir_sorted :: "directory \<Rightarrow> src_file list" where
  "iterdir_sorted folder = sort_key fname folder"

definition open_file :: "directory \<Rightarrow> string \<Rightarrow> error + src_file" where
  "open_file folder name =
     (case find (\<lambda>f. fname f = name) folder of None \<Rightarrow> Inl FileNotFoundError | Some f \<Rightarrow> Inr f)"

definition load_pdf :: "directory \<Rightarrow> string \<Rightarrow> error + string" where
  "load_pdf folder name = (case open_file folder name of Inl e \<Rightarrow> Inl e | Inr f \<Rightarrow> Inr (body f))"

definition load_docx :: "directory \<Rightarrow> string \<Rightarrow> error + string" where
  "load_docx folder name = (case open_file folder name of Inl e \<Rightarrow> Inl e | Inr f \<Rightarrow> Inr (body f))"

definition load_document :: "directory \<Rightarrow> string \<Rightarrow> error + string" where
  "load_document folder name =
     (let ext = str_lower (path_suffix name)
      in if ext = ''.pdf'' then load_pdf folder name
         else if ext = ''.docx'' then load_docx folder name
         else Inl ValueError)"

fun load_documents_loop :: "directory \<Rightarrow> src_file list \<Rightarrow> (string \<times> string) list
    \<Rightarrow> error + (string \<times> string) list" where
  "load_documents_loop folder [] docs = Inr docs"
| "load_documents_loop folder (f # fs) docs =
     (if supported (fname f)
      then (case load_document folder (fname f) of
              Inl e \<Rightarrow> Inl e
            | Inr t \<Rightarrow>
                if str_strip t \<noteq> [] then load_documents_loop folder fs (docs @ [(fname f, t)])
                else load_documents_loop folder fs docs)
      else load_documents_loop folder fs docs)"

definition load_documents :: "directory \<Rightarrow> error + (string \<times> string) list" where
  "load_documents folder = load_documents_loop folder (iterdir_sorted folder) []"

definition compute_file_hashes :: "directory \<Rightarrow> (string \<times> string) list" where
  "compute_file_hashes docs_dir =
     fold (\<lambda>f hashes. if supported (fname f) then AList.update (fname f) (digest f) hashes else hashes)
       (iterdir_sorted docs_dir) []"

subsection \<open>HybridIndex\<close>

record chunk =
  ctext :: string
  filename :: string
  chunk_idx :: nat

record entry =
  hash :: string
  chunk_start :: nat
  chunk_end :: nat

type_synonym manifest = "(string \<times> entry) list"

text \<open>
  The object: \<open>embeddings\<close> is \<open>None\<close> or the list of the rows of the matrix, and
  \<open>has_embedder\<close> says that \<open>_embedder\<close> is set.
\<close>

record 'v HybridIndex =
  chunks :: "chunk list"
  embeddings :: "'v list option"
  manifest :: manifest
  bm25 :: BM25
  has_embedder :: bool

definition HybridIndex_init :: "'v HybridIndex" where
  "HybridIndex_init =
     \<lparr>chunks = [], embeddings = None, manifest = [], bm25 = BM25_new, has_embedder = False\<rparr>"

text \<open>The index directory: each of the three files is absent or holds a value.\<close>

record 'v disk =
  manifest_json :: "manifest option"
  chunks_json :: "chunk list option"
  embeddings_npy :: "'v list option"

definition save :: "'v HybridIndex \<Rightarrow> 'v disk \<Rightarrow> 'v disk" where
  "save self dk =
     (let dk1 = dk\<lparr>manifest_json := Some (manifest self)\<rparr>;
          dk2 = dk1\<lparr>chunks_json := Some (chunks self)\<rparr>
      in (case embeddings self of
            None \<Rightarrow> dk2
          | Some rows \<Rightarrow> dk2\<lparr>embeddings_npy := Some rows\<rparr>))"

definition load :: "'v disk \<Rightarrow> error + 'v HybridIndex" where
  "load dk =
     (let idx = HybridIndex_init
      in (case manifest_json dk of
            None \<Rightarrow> Inr idx
          | Some m \<Rightarrow>
              (case chunks_json dk of
                 None \<Rightarrow> Inl FileNotFoundError
               | Some cs \<Rightarrow>
                   let idx1 = idx\<lparr>manifest := m, chunks := cs\<rparr>;
                       idx2 = (case embeddings_npy dk of
                                 None \<Rightarrow> idx1
                               | Some rows \<Rightarrow> idx1\<lparr>embeddings := Some rows\<rparr>)
                   in Inr (if cs \<noteq> [] then idx2\<lparr>bm25 := fit (bm25 idx2) (map ctext cs)\<rparr>
                           else idx2))))"

text \<open>The chunk records that one document contributes.\<close>

definition make_chunks :: "string \<Rightarrow> string list \<Rightarrow> chunk list" where
  "make_chunks name text_chunks =
     map (\<lambda>(i, c). \<lparr>ctext = c, filename = name, chunk_idx = i\<rparr>) (enumerate 0 text_chunks)"

fun build_loop :: "(string \<times> string) list \<Rightarrow> (string \<times> string) list \<Rightarrow> chunk list \<Rightarrow> manifest
    \<Rightarrow> chunk list \<times> manifest" where
  "build_loop file_hashes [] cs man = (cs, man)"
| "build_loop file_hashes ((name, t) # docs) cs man =
     (let text_chunks = chunk_text t CHUNK_SIZE CHUNK_OVERLAP;
          start = length cs;
          cs' = cs @ make_chunks name text_chunks;
          stop = length cs'
      in build_loop file_hashes docs cs'
           (AList.update name
              \<lparr>hash = (case map_of file_hashes name of None \<Rightarrow> [] | Some h \<Rightarrow> h),
               chunk_start = start, chunk_end = stop\<rparr> man))"

definition build :: "(string \<Rightarrow> 'v) \<Rightarrow> directory \<Rightarrow> 'v HybridIndex \<Rightarrow> 'v disk
    \<Rightarrow> error + ('v HybridIndex \<times> 'v disk)" where
  "build emb docs_dir self dk =
     (case load_documents docs_dir of
        Inl e \<Rightarrow> Inl e
      | Inr docs \<Rightarrow>
          (case build_loop (compute_file_hashes docs_dir) docs [] [] of (cs, man) \<Rightarrow>
             let texts = map ctext cs;
                 self1 = self\<lparr>chunks := cs, manifest := man, has_embedder := True\<rparr>;
                 self2 = self1\<lparr>embeddings := Some (map emb texts)\<rparr>;
                 self3 = self2\<lparr>bm25 := fit (bm25 self2) texts\<rparr>
             in Inr (self3, save self3 dk)))"

text \<open>
  The body of \<open>needs_reindex\<close> after \<open>current = compute_file_hashes(docs_dir)\<close>, as a
  function of the manifest and of \<open>current\<close>.
\<close>

definition diff_files :: "manifest \<Rightarrow> (string \<times> string) list
    \<Rightarrow> bool \<times> string list \<times> string list \<times> string list" where
  "diff_files man current =
     (let old_files = set (map fst man);
          new_files = set (map fst current);
          added = sorted_list_of_set (new_files - old_files);
          removed = sorted_list_of_set (old_files - new_files);
          changed = sorted_list_of_set
            (Set.filter (\<lambda>f. map_of current f \<noteq> map_option hash (map_of man f))
               (old_files \<inter> new_files));
          needs = (added \<noteq> [] \<or> removed \<noteq> [] \<or> changed \<noteq> [])
      in (needs, added, changed, removed))"

text \<open>\<open>needs_reindex\<close> returns its result and the object as it leaves it.\<close>

definition needs_reindex :: "directory \<Rightarrow> 'v HybridIndex
    \<Rightarrow> (bool \<times> string list \<times> string list \<times> string list) \<times> 'v HybridIndex" where
  "needs_reindex docs_dir self =
     (let current = compute_file_hashes docs_dir
      in (diff_files (manifest self) current, self))"

text \<open>The removal step of \<open>reindex\<close>; \<open>embeddings[keep_indices]\<close> selects rows by position.\<close>

definition remove_files :: "string list \<Rightarrow> 'v HybridIndex \<Rightarrow> error + 'v HybridIndex" where
  "remove_files files_to_remove self =
     (let keep_indices = filter (\<lambda>i. filename (chunks self ! i) \<notin> set files_to_remove)
                           [0..<length (chunks self)];
          self1 = self\<lparr>chunks := map (\<lambda>i. chunks self ! i) keep_indices\<rparr>;
          man = fold AList.delete files_to_remove (manifest self)
      in (case embeddings self of
            Some rows \<Rightarrow>
              if keep_indices \<noteq> []
              then (if \<forall>i\<in>set keep_indices. i < length rows
                    then Inr (self1\<lparr>embeddings := Some (map (\<lambda>i. rows ! i) keep_indices),
                                    manifest := man\<rparr>)
                    else Inl IndexError)
              else Inr (self1\<lparr>embeddings := None, manifest := man\<rparr>)
          | None \<Rightarrow>
              if keep_indices = [] then Inr (self1\<lparr>embeddings := None, manifest := man\<rparr>)
              else Inr (self1\<lparr>manifest := man\<rparr>)))"

text \<open>The loop of the addition step, over \<open>sorted(files_to_add)\<close>.\<close>

fun add_loop :: "directory \<Rightarrow> (string \<times> string) list \<Rightarrow> string list \<Rightarrow> chunk list \<Rightarrow> manifest
    \<Rightarrow> string list \<Rightarrow> error + (chunk list \<times> manifest \<times> string list)" where
  "add_loop docs_dir file_hashes [] cs man new_chunk_texts = Inr (cs, man, new_chunk_texts)"
| "add_loop docs_dir file_hashes (name # names) cs man new_chunk_texts =
     (case load_document docs_dir name of
        Inl e \<Rightarrow> Inl e
      | Inr t \<Rightarrow>
          let text_chunks = chunk_text t CHUNK_SIZE CHUNK_OVERLAP;
              start = length cs;
              cs' = cs @ make_chunks name text_chunks;
              stop = length cs'
          in (case map_of file_hashes name of
                None \<Rightarrow> Inl KeyError
              | Some h \<Rightarrow>
                  add_loop docs_dir file_hashes names cs'
                    (AList.update name \<lparr>hash = h, chunk_start = start, chunk_end = stop\<rparr> man)
                    (new_chunk_texts @ text_chunks)))"

definition add_files :: "(string \<Rightarrow> 'v) \<Rightarrow> directory \<Rightarrow> string list \<Rightarrow> 'v HybridIndex
    \<Rightarrow> error + 'v HybridIndex" where
  "add_files emb docs_dir files_to_add self =
     (case add_loop docs_dir (compute_file_hashes docs_dir) files_to_add
             (chunks self) (manifest self) [] of
        Inl e \<Rightarrow> Inl e
      | Inr (cs, man, new_chunk_texts) \<Rightarrow>
          let new_embeddings = map emb new_chunk_texts;
              self1 = self\<lparr>chunks := cs, manifest := man, has_embedder := True\<rparr>
          in Inr (case embeddings self1 of
                    Some rows \<Rightarrow>
                      if length rows > 0 then self1\<lparr>embeddings := Some (rows @ new_embeddings)\<rparr>
                      else self1\<lparr>embeddings := Some new_embeddings\<rparr>
                  | None \<Rightarrow> self1\<lparr>embeddings := Some new_embeddings\<rparr>))"

text \<open>\<open>_rebuild_manifest_ranges\<close>: first the scan of the chunks, then the update.\<close>

fun ranges_loop :: "(nat \<times> chunk) list \<Rightarrow> (string \<times> nat \<times> nat) list \<Rightarrow> (string \<times> nat \<times> nat) list" where
  "ranges_loop [] ranges = ranges"
| "ranges_loop ((i, c) # rest) ranges =
     (case map_of ranges (filename c) of
        None \<Rightarrow> ranges_loop rest (AList.update (filename c) (i, i + 1) ranges)
      | Some (start, stop) \<Rightarrow> ranges_loop rest (AList.update (filename c) (start, i + 1) ranges))"

definition rebuild_manifest_ranges :: "'v HybridIndex \<Rightarrow> 'v HybridIndex" where
  "rebuild_manifest_ranges self =
     self\<lparr>manifest :=
       fold (\<lambda>(name, (start, stop)) man.
               case map_of man name of
                 None \<Rightarrow> man
               | Some en \<Rightarrow> AList.update name (en\<lparr>chunk_start := start, chunk_end := stop\<rparr>) man)
         (ranges_loop (enumerate 0 (chunks self)) []) (manifest self)\<rparr>"

definition reindex :: "(string \<Rightarrow> 'v) \<Rightarrow> directory \<Rightarrow> 'v HybridIndex \<Rightarrow> 'v disk
    \<Rightarrow> error + ('v HybridIndex \<times> 'v disk)" where
  "reindex emb docs_dir self dk =
     (case needs_reindex docs_dir self of ((needs, added, changed, removed), self0) \<Rightarrow>
        if \<not> needs then Inr (self0, dk)
        else
          let files_to_remove = sorted_list_of_set (set removed \<union> set changed);
              files_to_add = sorted_list_of_set (set added \<union> set changed)
          in (case (if files_to_remove \<noteq> [] then remove_files files_to_remove self0 else Inr self0) of
                Inl e \<Rightarrow> Inl e
              | Inr self1 \<Rightarrow>
                  (case (if files_to_add \<noteq> [] then add_files emb docs_dir files_to_add self1
                         else Inr self1) of
                     Inl e \<Rightarrow> Inl e
                   | Inr self2 \<Rightarrow>
                       let self3 = self2\<lparr>bm25 := fit (bm25 self2) (map ctext (chunks self2))\<rparr>;
                           self4 = rebuild_manifest_ranges self3
                       in Inr (self4, save self4 dk))))"

section \<open>Auxiliary notions for the statements\<close>

text \<open>Words as \<open>str.split\<close> returns them: non-empty and free of whitespace.\<close>

definition plain_words :: "string list \<Rightarrow> bool" where
  "plain_words ws = (\<forall>w\<in>set ws. w \<noteq> [] \<and> (\<forall>c\<in>set w. \<not> isspace c))"

text \<open>
  The shape of a chunk with the words \<open>ws\<close>: within \<open>S\<close> words, or at most \<open>ov\<close>
  carried-over words followed by all the words of one of the sentences.
\<close>

definition chunk_ok :: "int \<Rightarrow> int \<Rightarrow> string list \<Rightarrow> string list \<Rightarrow> bool" where
  "chunk_ok S ov sentences ws =
     (int (length ws) \<le> S \<or>
      (\<exists>sentence\<in>set sentences. \<exists>seed.
         ws = seed @ str_split sentence \<and> int (length seed) \<le> ov))"

text \<open>
  The BM25 formula in the words of the specification, for the chunk texts \<open>texts\<close>:
  \<open>N\<close> chunks, \<open>df(t)\<close> the number of chunks that contain \<open>t\<close>, \<open>tf(t,d)\<close> the number of
  occurrences of \<open>t\<close> in \<open>d\<close>, \<open>|d|\<close> the number of tokens of \<open>d\<close>, \<open>avgdl\<close> their mean;
  the chunk score sums over the query tokens that occur in some chunk.
\<close>

definition spec_df :: "string list \<Rightarrow> string \<Rightarrow> nat" where
  "spec_df texts t = length (filter (\<lambda>d. t \<in> set (tokenize d)) texts)"

definition spec_tf :: "string \<Rightarrow> string \<Rightarrow> nat" where
  "spec_tf t d = count_list (tokenize d) t"

definition spec_avgdl :: "string list \<Rightarrow> real" where
  "spec_avgdl texts = real (sum_list (map (length \<circ> tokenize) texts)) / real (max (length texts) 1)"

definition spec_idf :: "string list \<Rightarrow> string \<Rightarrow> real" where
  "spec_idf texts t =
     ln ((real (length texts) - real (spec_df texts t) + 0.5) / (real (spec_df texts t) + 0.5) + 1)"

definition spec_term_score :: "real \<Rightarrow> real \<Rightarrow> string list \<Rightarrow> string \<Rightarrow> string \<Rightarrow> real" where
  "spec_term_score k1c bc texts d t =
     spec_idf texts t * real (spec_tf t d) * (k1c + 1) /
       (real (spec_tf t d) + k1c * (1 - bc + bc * real (length (tokenize d)) / spec_avgdl texts))"

definition spec_score :: "real \<Rightarrow> real \<Rightarrow> string list \<Rightarrow> string \<Rightarrow> string \<Rightarrow> real" where
  "spec_score k1c bc texts query d =
     sum_list (map (spec_term_score k1c bc texts d)
       (filter (\<lambda>t. 0 < spec_df texts t) (tokenize query)))"

text \<open>
  What the loops of \<open>search\<close> add to the score at position \<open>i\<close>: for one term and one
  inverse document frequency, for one term with the frequency the model holds, and the
  conditions under which no step of the loops fails.
\<close>

definition doc_term_score :: "BM25 \<Rightarrow> string \<Rightarrow> real \<Rightarrow> nat \<Rightarrow> real" where
  "doc_term_score m term idf i =
     (case (tf m ! i) term of
        None \<Rightarrow> 0
      | Some freq \<Rightarrow> idf * (real freq * (k1 m + 1)) /
          (real freq + k1 m * (1 - b m + b m * real (doc_lens m ! i) / avg_dl m)))"

definition code_idf :: "BM25 \<Rightarrow> nat \<Rightarrow> real" where
  "code_idf m df = ln ((real (n_docs m) - real df + 0.5) / (real df + 0.5) + 1.0)"

definition scorable :: "BM25 \<Rightarrow> string \<Rightarrow> bool" where
  "scorable m term =
     (avg_dl m \<noteq> 0 \<and>
      (\<forall>i<length (tf m). \<forall>freq. (tf m ! i) term = Some freq \<longrightarrow>
         real freq + k1 m * (1 - b m + b m * real (doc_lens m ! i) / avg_dl m) \<noteq> 0))"

definition term_total :: "BM25 \<Rightarrow> string \<Rightarrow> nat \<Rightarrow> real" where
  "term_total m term i =
     (case doc_freqs m term of
        None \<Rightarrow> 0
      | Some df \<Rightarrow> doc_term_score m term (code_idf m df) i)"

definition model_ok :: "BM25 \<Rightarrow> bool" where
  "model_ok m =
     (length (doc_lens m) = length (tf m) \<and>
      (\<forall>term df. doc_freqs m term = Some df \<longrightarrow>
         scorable m term \<and> 0 < (real (n_docs m) - real df + 0.5) / (real df + 0.5) + 1.0))"

text \<open>
  What one ranked list, read from rank \<open>n\<close> on, adds to the fused score of \<open>x\<close>:
  \<open>1 / (k + r + 1)\<close> for each occurrence of \<open>x\<close> at rank \<open>r\<close>, nothing where \<open>x\<close> is absent.
\<close>

definition rank_gain :: "int \<Rightarrow> nat \<Rightarrow> ('d \<times> real) list \<Rightarrow> 'd \<Rightarrow> real" where
  "rank_gain k n ranked x =
     sum_list (map (\<lambda>(rank, p). if fst p = x then 1 / real_of_int (k + int rank + 1) else 0)
       (enumerate n ranked))"

subsection \<open>The index\<close>

text \<open>The chunk texts that \<open>reindex\<close> computes for the file \<open>name\<close> of the directory; none
  when the file cannot be loaded.\<close>

definition doc_chunks :: "directory \<Rightarrow> string \<Rightarrow> string list" where
  "doc_chunks docs_dir name =
     (case load_document docs_dir name of
        Inl e \<Rightarrow> []
      | Inr t \<Rightarrow> chunk_text t CHUNK_SIZE CHUNK_OVERLAP)"

text \<open>The rows of the embedding matrix; none when \<open>embeddings\<close> is \<open>None\<close>.\<close>

definition emb_rows :: "'v HybridIndex \<Rightarrow> 'v list" where
  "emb_rows self = (case embeddings self of None \<Rightarrow> [] | Some rs \<Rightarrow> rs)"

text \<open>The chunk records that the addition step of \<open>reindex\<close> appends for the names.\<close>

definition new_chunks :: "directory \<Rightarrow> string list \<Rightarrow> chunk list" where
  "new_chunks docs_dir names = concat (map (\<lambda>n. make_chunks n (doc_chunks docs_dir n)) names)"

text \<open>
  What the addition step does to the manifest: the names get entries with the current
  hash (an empty range for a file without chunks), every other entry stays.
\<close>

definition added_entries :: "directory \<Rightarrow> (string \<times> string) list \<Rightarrow> string list \<Rightarrow> manifest \<Rightarrow> manifest \<Rightarrow> bool" where
  "added_entries d fh names man man' =
     (fst ` set man' = fst ` set man \<union> set names \<and>
      (distinct (map fst man) \<longrightarrow> distinct (map fst man')) \<and>
      (\<forall>n. n \<notin> set names \<longrightarrow> map_of man' n = map_of man n) \<and>
      (\<forall>n\<in>set names. \<exists>e. map_of man' n = Some e \<and> Some (hash e) = map_of fh n \<and>
          (doc_chunks d n = [] \<longrightarrow> chunk_start e = chunk_end e)))"

text \<open>The manifest that \<open>_rebuild_manifest_ranges\<close> leaves, for the chunk list \<open>cs\<close>.\<close>

definition rebuilt :: "chunk list \<Rightarrow> manifest \<Rightarrow> manifest" where
  "rebuilt cs man =
     fold (\<lambda>(name, (start, stop)) man.
             case map_of man name of
               None \<Rightarrow> man
             | Some en \<Rightarrow> AList.update name (en\<lparr>chunk_start := start, chunk_end := stop\<rparr>) man)
       (ranges_loop (enumerate 0 cs) []) man"

text \<open>\<open>files_to_remove\<close> and \<open>files_to_add\<close> of \<open>reindex\<close>, in sorted order.\<close>

definition files_to_remove :: "manifest \<Rightarrow> (string \<times> string) list \<Rightarrow> string list" where
  "files_to_remove man current =
     (case diff_files man current of (needs, added, changed, removed) \<Rightarrow>
        sorted_list_of_set (set removed \<union> set changed))"

definition files_to_add :: "manifest \<Rightarrow> (string \<times> string) list \<Rightarrow> string list" where
  "files_to_add man current =
     (case diff_files man current of (needs, added, changed, removed) \<Rightarrow>
        sorted_list_of_set (set added \<union> set changed))"

text \<open>The file has in the manifest the hash it has now.\<close>

definition unchanged_in :: "manifest \<Rightarrow> (string \<times> string) list \<Rightarrow> string \<Rightarrow> bool" where
  "unchanged_in man current f = (map_of current f = map_option hash (map_of man f))"

text \<open>
  The alignment of the three representations: row \<open>i\<close> of the matrix is the embedding of
  chunk \<open>i\<close> (so there is one row per chunk, and none for an empty chunk list), and the
  BM25 model is the one that \<open>fit\<close> leaves on the chunk texts in the order of the list.
\<close>

definition aligned :: "(string \<Rightarrow> 'v) \<Rightarrow> 'v HybridIndex \<Rightarrow> bool" where
  "aligned emb self =
     (emb_rows self = map (\<lambda>c. emb (ctext c)) (chunks self) \<and>
      bm25 self = fit (bm25 self) (map ctext (chunks self)))"

section \<open>The chunker\<close>

lemma plain_words_simps [simp]:
  "plain_words []"
  "plain_words (w # ws) = (w \<noteq> [] \<and> (\<forall>c\<in>set w. \<not> isspace c) \<and> plain_words ws)"
  "plain_words (us @ vs) = (plain_words us \<and> plain_words vs)"
  by (auto simp: plain_words_def)

lemma plain_words_drop: "plain_words ws \<Longrightarrow> plain_words (drop n ws)"
  by (auto simp: plain_words_def dest: in_set_dropD)

lemma split_acc_plain:
  "(\<forall>c\<in>set w. \<not> isspace c) \<Longrightarrow> plain_words (split_acc w s)"
  by (induction w s rule: split_acc.induct) auto

lemma str_split_plain: "plain_words (str_split s)"
  by (simp add: str_split_def split_acc_plain)

lemma split_acc_append:
  "\<forall>c\<in>set v. \<not> isspace c \<Longrightarrow> split_acc w (v @ rest) = split_acc (w @ v) rest"
  by (induction v arbitrary: w) auto

lemma isspace_space: "isspace CHR '' ''"
  by (simp add: isspace_def)

lemma split_acc_join:
  "plain_words ws \<Longrightarrow> split_acc [] (join_space ws) = ws"
proof (induction ws rule: join_space.induct)
  case 1
  then show ?case by simp
next
  case (2 w)
  then show ?case using split_acc_append [of w "[]" "[]"] by simp
next
  case (3 w v ws)
  have "split_acc [] (w @ '' '' @ join_space (v # ws)) = split_acc w ('' '' @ join_space (v # ws))"
    using 3 split_acc_append [of w "[]"] by simp
  also have "\<dots> = w # split_acc [] (join_space (v # ws))"
    using 3 by (simp add: isspace_space)
  finally show ?case using 3 by simp
qed

lemma str_split_join: "plain_words ws \<Longrightarrow> str_split (join_space ws) = ws"
  by (simp add: str_split_def split_acc_join)

lemma chunk_loop_chunks:
  "chunk_loop S ov out cur ss = out @ chunk_loop S ov [] cur ss"
proof (induction ss arbitrary: out cur)
  case Nil
  then show ?case by simp
next
  case (Cons s ss)
  show ?case
    using Cons [of out] Cons [of "out @ [join_space cur]"] Cons [of "[join_space cur]"]
    by (simp add: Let_def)
qed

lemma chunk_ok_sentence:
  "s \<in> set A \<Longrightarrow> int (length seed) \<le> ov \<Longrightarrow> chunk_ok S ov A (seed @ str_split s)"
  unfolding chunk_ok_def by blast

lemma length_slice_from_neg: "0 < ov \<Longrightarrow> int (length (slice_from xs (- ov))) \<le> ov"
  by (auto simp: slice_from_def)

lemma chunk_loop_chunk_ok:
  assumes "0 \<le> ov" "plain_words cur" "cur \<noteq> [] \<longrightarrow> chunk_ok S ov A cur" "set ss \<subseteq> set A"
    and "c \<in> set (chunk_loop S ov [] cur ss)"
  shows "chunk_ok S ov A (str_split c)"
  using assms(2-)
proof (induction ss arbitrary: cur)
  case Nil
  then show ?case by (auto simp: str_split_join split: if_splits)
next
  case (Cons s ss)
  let ?w = "str_split s"
  have pw: "plain_words ?w" by (rule str_split_plain)
  have sub: "set ss \<subseteq> set A" and sA: "s \<in> set A" using Cons.prems(3) by auto
  show ?case
  proof (cases "?w = []")
    case True
    then show ?thesis using Cons.IH [OF Cons.prems(1,2) sub] Cons.prems(4) by simp
  next
    case nonempty: False
    show ?thesis
    proof (cases "int (length cur) + int (length ?w) > S \<and> cur \<noteq> []")
      case True
      let ?seed = "if ov \<noteq> 0 then slice_from cur (- ov) else []"
      have seed_plain: "plain_words ?seed"
        using Cons.prems(1) by (auto simp: slice_from_def plain_words_drop)
      have seed_len: "int (length ?seed) \<le> ov"
        using assms(1) length_slice_from_neg [of ov cur] by auto
      have w: "?seed @ ?w \<noteq> [] \<longrightarrow> chunk_ok S ov A (?seed @ ?w)"
        using chunk_ok_sentence [OF sA seed_len] by simp
      from Cons.prems(4) nonempty True
      have "c \<in> set (chunk_loop S ov [join_space cur] (?seed @ ?w) ss)"
        by (simp add: Let_def)
      then have "c = join_space cur \<or> c \<in> set (chunk_loop S ov [] (?seed @ ?w) ss)"
        using chunk_loop_chunks [of S ov "[join_space cur]"] by auto
      then show ?thesis
      proof
        assume "c = join_space cur"
        then show ?thesis using Cons.prems(1,2) True by (simp add: str_split_join)
      next
        assume "c \<in> set (chunk_loop S ov [] (?seed @ ?w) ss)"
        then show ?thesis using Cons.IH [OF _ w sub] seed_plain pw by simp
      qed
    next
      case False
      have w: "cur @ ?w \<noteq> [] \<longrightarrow> chunk_ok S ov A (cur @ ?w)"
      proof (cases "cur = []")
        case True
        then show ?thesis using chunk_ok_sentence [OF sA, of "[]" ov S] assms(1) by simp
      next
        case False
        then show ?thesis using \<open>\<not> (int (length cur) + int (length ?w) > S \<and> cur \<noteq> [])\<close>
          by (simp add: chunk_ok_def)
      qed
      from Cons.prems(4) nonempty False
      have "c \<in> set (chunk_loop S ov [] (cur @ ?w) ss)" by (simp add: Let_def)
      then show ?thesis using Cons.IH [OF _ w sub] Cons.prems(1) pw by simp
    qed
  qed
qed

text \<open>
  C2 (as amended). For a non-negative overlap, every chunk that \<open>chunk_text\<close> produces has
  at most \<open>chunk_size\<close> words, or its words are at most \<open>overlap\<close> carried-over words
  followed by all the words of one sentence of the text. The size test runs before the
  overlap words are carried over and is not repeated after, so a sentence of more than
  \<open>chunk_size - overlap\<close> words can push a chunk beyond \<open>chunk_size\<close> without exceeding
  \<open>chunk_size\<close> itself.
\<close>

theorem chunk_text_word_bound:
  assumes "0 \<le> overlap" and "c \<in> set (chunk_text s chunk_size overlap)"
  shows "int (length (str_split c)) \<le> chunk_size \<or>
     (\<exists>sentence\<in>set (SENTENCE_RE_split s). \<exists>seed.
        str_split c = seed @ str_split sentence \<and> int (length seed) \<le> overlap)"
proof -
  have "chunk_ok chunk_size overlap (SENTENCE_RE_split s) (str_split c)"
  proof (rule chunk_loop_chunk_ok [OF assms(1)])
    show "plain_words []" by simp
    show "([]::string list) \<noteq> [] \<longrightarrow> chunk_ok chunk_size overlap (SENTENCE_RE_split s) []"
      by simp
    show "set (SENTENCE_RE_split s) \<subseteq> set (SENTENCE_RE_split s)" by simp
    show "c \<in> set (chunk_loop chunk_size overlap [] [] (SENTENCE_RE_split s))"
      using assms(2) by (simp add: chunk_text_def)
  qed
  then show ?thesis by (simp add: chunk_ok_def)
qed

theorem chunk_text_word_bound_witness:
  "(0::int) \<le> 2 \<and> ''b c. d e f.'' \<in> set (chunk_text ''a b c. d e f. g h.'' 4 2) \<and>
   \<not> int (length (str_split ''b c. d e f.'')) \<le> 4 \<and>
   (\<exists>sentence\<in>set (SENTENCE_RE_split ''a b c. d e f. g h.''). \<exists>seed.
      str_split ''b c. d e f.'' = seed @ str_split sentence \<and> int (length seed) \<le> 2)"
proof -
  have ov: "(0::int) \<le> 2" by simp
  have mem: "''b c. d e f.'' \<in> set (chunk_text ''a b c. d e f. g h.'' 4 2)" by code_simp
  have big: "\<not> int (length (str_split ''b c. d e f.'')) \<le> 4" by code_simp
  show ?thesis using ov mem big chunk_text_word_bound [OF ov mem] by blast
qed

text \<open>
  C2 as stated fails: with \<open>chunk_size = 4\<close> and \<open>overlap = 2\<close> the second chunk has five
  words, and no sentence of the text has more than three.
\<close>

theorem chunk_text_size_counterexample:
  "(0::int) < 4 \<and> (0::int) \<le> 2 \<and> (2::int) < 4 \<and>
   chunk_text ''a b c. d e f. g h.'' 4 2 = [''a b c.'', ''b c. d e f.'', ''e f. g h.''] \<and>
   length (str_split ''b c. d e f.'') = 5 \<and>
   map (length \<circ> str_split) (SENTENCE_RE_split ''a b c. d e f. g h.'') = [3, 3, 2]"
  by code_simp

section \<open>Change detection\<close>

text \<open>
  C8. For any manifest and any table of current hashes, the three lists that
  \<open>needs_reindex\<close> computes are: added, the names in the current table and not in the
  manifest; removed, the names in the manifest and not in the current table; changed,
  the names in both whose current hash differs from the recorded one. The three are
  pairwise disjoint, a name in both with an equal hash is in none of them, each list is
  sorted without repetition, and the flag says whether one of them is non-empty.
\<close>

theorem diff_files_classification:
  "(case diff_files man current of (needs, added, changed, removed) \<Rightarrow>
      set added = set (map fst current) - set (map fst man) \<and>
      set removed = set (map fst man) - set (map fst current) \<and>
      set changed = {f. f \<in> set (map fst man) \<and> f \<in> set (map fst current) \<and>
                        map_of current f \<noteq> map_option hash (map_of man f)} \<and>
      set added \<inter> set changed = {} \<and> set added \<inter> set removed = {} \<and>
      set changed \<inter> set removed = {} \<and>
      {f. f \<in> set (map fst man) \<and> f \<in> set (map fst current) \<and>
          map_of current f = map_option hash (map_of man f)}
        \<inter> (set added \<union> set changed \<union> set removed) = {} \<and>
      sorted added \<and> distinct added \<and> sorted changed \<and> distinct changed \<and>
      sorted removed \<and> distinct removed \<and>
      needs = (added \<noteq> [] \<or> removed \<noteq> [] \<or> changed \<noteq> []))"
  by (auto simp: diff_files_def Let_def)

theorem diff_files_classification_witness:
  "diff_files
     [(''a.pdf'', \<lparr>hash = ''1'', chunk_start = 0, chunk_end = 1\<rparr>),
      (''b.pdf'', \<lparr>hash = ''1'', chunk_start = 1, chunk_end = 2\<rparr>),
      (''c.pdf'', \<lparr>hash = ''1'', chunk_start = 2, chunk_end = 3\<rparr>)]
     [(''b.pdf'', ''1''), (''c.pdf'', ''2''), (''d.pdf'', ''1'')]
   = (True, [''d.pdf''], [''c.pdf''], [''a.pdf'']) \<and>
   set [''c.pdf''] = {f. f \<in> set (map fst
       [(''a.pdf'', \<lparr>hash = ''1'', chunk_start = 0, chunk_end = 1\<rparr>),
        (''b.pdf'', \<lparr>hash = ''1'', chunk_start = 1, chunk_end = 2\<rparr>),
        (''c.pdf'', \<lparr>hash = ''1'', chunk_start = 2, chunk_end = 3\<rparr>)]) \<and>
     f \<in> set (map fst [(''b.pdf'', ''1''), (''c.pdf'', ''2''), (''d.pdf'', ''1'')]) \<and>
     map_of [(''b.pdf'', ''1''), (''c.pdf'', ''2''), (''d.pdf'', ''1'')] f \<noteq>
     map_option hash (map_of
       [(''a.pdf'', \<lparr>hash = ''1'', chunk_start = 0, chunk_end = 1\<rparr>),
        (''b.pdf'', \<lparr>hash = ''1'', chunk_start = 1, chunk_end = 2\<rparr>),
        (''c.pdf'', \<lparr>hash = ''1'', chunk_start = 2, chunk_end = 3\<rparr>)] f)}"
proof -
  let ?M = "[(''a.pdf'', \<lparr>hash = ''1'', chunk_start = 0, chunk_end = 1\<rparr>),
      (''b.pdf'', \<lparr>hash = ''1'', chunk_start = 1, chunk_end = 2\<rparr>),
      (''c.pdf'', \<lparr>hash = ''1'', chunk_start = 2, chunk_end = 3\<rparr>)]"
  let ?C = "[(''b.pdf'', ''1''), (''c.pdf'', ''2''), (''d.pdf'', ''1'')]"
  have e: "diff_files ?M ?C = (True, [''d.pdf''], [''c.pdf''], [''a.pdf''])"
    by code_simp
  show ?thesis
    using diff_files_classification [where man = ?M and current = ?C] unfolding e by simp
qed

text \<open>
  C9. \<open>needs_reindex\<close> is a query: the object it leaves is the object it was called on
  (chunk list, embedding matrix, manifest and BM25 state included), and its result is
  the classification of the manifest against the hashes of the directory.
\<close>

theorem needs_reindex_pure:
  "snd (needs_reindex docs_dir self) = self \<and>
   fst (needs_reindex docs_dir self) = diff_files (manifest self) (compute_file_hashes docs_dir)"
  by (simp add: needs_reindex_def Let_def)

theorem needs_reindex_pure_witness:
  "snd (needs_reindex [\<lparr>fname = ''a.pdf'', digest = ''h1'', body = ''Hello.''\<rparr>]
          (HybridIndex_init :: nat HybridIndex)) = HybridIndex_init \<and>
   fst (needs_reindex [\<lparr>fname = ''a.pdf'', digest = ''h1'', body = ''Hello.''\<rparr>]
          (HybridIndex_init :: nat HybridIndex)) = (True, [''a.pdf''], [], [])"
proof -
  let ?d = "[\<lparr>fname = ''a.pdf'', digest = ''h1'', body = ''Hello.''\<rparr>]"
  have m: "manifest (HybridIndex_init :: nat HybridIndex) = []"
    by (simp add: HybridIndex_init_def)
  have e: "diff_files [] (compute_file_hashes ?d) = (True, [''a.pdf''], [], [])"
    by code_simp
  show ?thesis
    using needs_reindex_pure [where docs_dir = ?d and self = "HybridIndex_init :: nat HybridIndex"] by (simp add: m e)
qed

section \<open>BM25\<close>

lemma fit_loop_eq:
  "fit_loop texts tfs lens df =
     (tfs @ map (Counter \<circ> tokenize) texts, lens @ map (length \<circ> tokenize) texts,
      fold (\<lambda>t. df_count (tokenize t)) texts df)"
  by (induction texts arbitrary: tfs lens df) (simp_all add: Let_def)

lemma fit_fields:
  "tf (fit m texts) = map (Counter \<circ> tokenize) texts"
  "doc_lens (fit m texts) = map (length \<circ> tokenize) texts"
  "doc_freqs (fit m texts) = fold (\<lambda>t. df_count (tokenize t)) texts Map.empty"
  "n_docs (fit m texts) = length texts"
  "avg_dl (fit m texts) = spec_avgdl texts"
  "k1 (fit m texts) = k1 m"
  "b (fit m texts) = b m"
  by (simp_all add: fit_def fit_loop_eq spec_avgdl_def)

lemma fit_idem: "fit (fit m texts) texts = fit m texts"
  by (simp add: fit_def fit_loop_eq)


lemma count_fold:
  "fold (\<lambda>t c. c(t \<mapsto> get_or c t 0 + 1)) tokens c t =
     (if t \<in> set tokens then Some (get_or c t 0 + count_list tokens t) else c t)"
  by (induction tokens arbitrary: c) (auto simp: get_or_def)

lemma Counter_eq:
  "Counter tokens t = (if t \<in> set tokens then Some (count_list tokens t) else None)"
  unfolding Counter_def count_fold by (simp add: get_or_def)

lemma df_fold_distinct:
  "distinct xs \<Longrightarrow> fold (\<lambda>term d. d(term \<mapsto> get_or d term 0 + 1)) xs d t =
     (if t \<in> set xs then Some (get_or d t 0 + 1) else d t)"
  by (induction xs arbitrary: d) (auto simp: get_or_def)

lemma df_count_eq:
  "df_count tokens df t = (if t \<in> set tokens then Some (get_or df t 0 + 1) else df t)"
  using df_fold_distinct [of "remdups tokens" df t] by (simp add: df_count_def)

lemma df_fold_eq:
  "fold (\<lambda>x. df_count (tokenize x)) texts df t =
     (if spec_df texts t = 0 then df t else Some (get_or df t 0 + spec_df texts t))"
  by (induction texts arbitrary: df) (auto simp: df_count_eq spec_df_def get_or_def)

lemma doc_freqs_fit:
  "doc_freqs (fit m texts) t = (if spec_df texts t = 0 then None else Some (spec_df texts t))"
  unfolding fit_fields df_fold_eq by (simp add: get_or_def)

lemma spec_df_le: "spec_df texts t \<le> length texts"
  by (simp add: spec_df_def)

lemma spec_df_pos_avgdl:
  assumes "0 < spec_df texts t"
  shows "0 < spec_avgdl texts"
proof -
  from assms obtain d where d: "d \<in> set texts" "t \<in> set (tokenize d)"
    by (auto simp: spec_df_def filter_empty_conv)
  then have "0 < length (tokenize d)" by (cases "tokenize d") auto
  then have "0 < sum_list (map (length \<circ> tokenize) texts)"
    using d(1) by (induction texts) auto
  then show ?thesis by (simp add: spec_avgdl_def)
qed

lemma score_docs_run:
  assumes "scorable m term" "length (doc_lens m) = length (tf m)"
    and "length scores = length (tf m)" "drop j (tf m) = tfs"
  shows "\<exists>scores'. score_docs m term idf (enumerate j tfs) scores = Inr scores' \<and>
           length scores' = length scores \<and>
           (\<forall>i<length scores. scores' ! i =
              scores ! i + (if j \<le> i then doc_term_score m term idf i else 0))"
  using assms(3,4)
proof (induction tfs arbitrary: j scores)
  case Nil
  then have "length (tf m) \<le> j" by simp
  then show ?case using Nil by simp
next
  case (Cons x rest)
  have j: "j < length (tf m)" using Cons.prems(2) by (cases "j < length (tf m)") auto
  have x: "tf m ! j = x" and rest: "drop (Suc j) (tf m) = rest"
    using Cons.prems(2) Cons_nth_drop_Suc [OF j] by auto
  show ?case
  proof (cases "x term")
    case None
    obtain scores' where s: "score_docs m term idf (enumerate (Suc j) rest) scores = Inr scores'"
      "length scores' = length scores"
      "\<forall>i<length scores. scores' ! i =
          scores ! i + (if Suc j \<le> i then doc_term_score m term idf i else 0)"
      using Cons.IH [OF Cons.prems(1) rest] by blast
    have z: "doc_term_score m term idf j = 0" using None x by (simp add: doc_term_score_def)
    have "\<forall>i<length scores. scores' ! i =
          scores ! i + (if j \<le> i then doc_term_score m term idf i else 0)"
    proof (intro allI impI)
      fix i assume "i < length scores"
      then show "scores' ! i = scores ! i + (if j \<le> i then doc_term_score m term idf i else 0)"
        using s(3) z by (cases "i = j") auto
    qed
    then show ?thesis using s(1,2) None by simp
  next
    case (Some freq)
    let ?den = "real freq + k1 m * (1 - b m + b m * real (doc_lens m ! j) / avg_dl m)"
    let ?new = "scores[j := scores ! j + idf * (real freq * (k1 m + 1)) / ?den]"
    have den: "?den \<noteq> 0" and avg: "avg_dl m \<noteq> 0"
      using assms(1) j x Some by (auto simp: scorable_def)
    have len: "length ?new = length (tf m)" using Cons.prems(1) by simp
    obtain scores' where s: "score_docs m term idf (enumerate (Suc j) rest) ?new = Inr scores'"
      "length scores' = length ?new"
      "\<forall>i<length ?new. scores' ! i =
          ?new ! i + (if Suc j \<le> i then doc_term_score m term idf i else 0)"
      using Cons.IH [OF len rest] by blast
    have c: "doc_term_score m term idf j = idf * (real freq * (k1 m + 1)) / ?den"
      using Some x by (simp add: doc_term_score_def)
    have "\<forall>i<length scores. scores' ! i =
          scores ! i + (if j \<le> i then doc_term_score m term idf i else 0)"
    proof (intro allI impI)
      fix i assume i: "i < length scores"
      show "scores' ! i = scores ! i + (if j \<le> i then doc_term_score m term idf i else 0)"
      proof (cases "i = j")
        case True
        then show ?thesis using s(3) i c by simp
      next
        case False
        then show ?thesis using s(3) i by auto
      qed
    qed
    moreover have "score_docs m term idf (enumerate j (x # rest)) scores = Inr scores'"
      using Some j den avg s(1) assms(2) Cons.prems(1) by (simp add: Let_def)
    ultimately show ?thesis using s(2) by simp
  qed
qed

lemma score_terms_run:
  assumes "model_ok m" "length scores = length (tf m)"
  shows "\<exists>scores'. score_terms m terms scores = Inr scores' \<and>
           length scores' = length scores \<and>
           (\<forall>i<length scores. scores' ! i =
              scores ! i + sum_list (map (\<lambda>t. term_total m t i) terms))"
  using assms(2)
proof (induction terms arbitrary: scores)
  case Nil
  then show ?case by simp
next
  case (Cons t terms)
  show ?case
  proof (cases "doc_freqs m t")
    case None
    then show ?thesis using Cons.IH [OF Cons.prems] by (simp add: term_total_def)
  next
    case (Some df)
    have sc: "scorable m t" and pos: "0 < (real (n_docs m) - real df + 0.5) / (real df + 0.5) + 1.0"
      and dl: "length (doc_lens m) = length (tf m)"
      using assms(1) Some by (auto simp: model_ok_def)
    obtain s1 where s1: "score_docs m t (code_idf m df) (enumerate 0 (tf m)) scores = Inr s1"
      "length s1 = length scores"
      "\<forall>i<length scores. s1 ! i = scores ! i + doc_term_score m t (code_idf m df) i"
      using score_docs_run [OF sc dl Cons.prems, of 0 "tf m" "code_idf m df"] by auto
    have l1: "length s1 = length (tf m)" using s1(2) Cons.prems by simp
    obtain s2 where s2: "score_terms m terms s1 = Inr s2" "length s2 = length s1"
      "\<forall>i<length s1. s2 ! i = s1 ! i + sum_list (map (\<lambda>t. term_total m t i) terms)"
      using Cons.IH [OF l1] by blast
    have "score_terms m (t # terms) scores = Inr s2"
      using Some pos s1(1) s2(1) by (simp add: code_idf_def Let_def)
    moreover have "\<forall>i<length scores. s2 ! i =
        scores ! i + sum_list (map (\<lambda>t. term_total m t i) (t # terms))"
      using s1(2,3) s2(3) Some by (simp add: term_total_def)
    ultimately show ?thesis using s1(2) s2(2) by simp
  qed
qed

lemma denominator_pos:
  assumes "0 \<le> k" "0 \<le> bb" "bb \<le> 1" "0 < avg" "0 < freq"
  shows "0 < real freq + k * (1 - bb + bb * real dl / avg)"
proof -
  have "0 \<le> bb * real dl / avg" using assms by simp
  then have "0 \<le> 1 - bb + bb * real dl / avg" using assms by simp
  then have "0 \<le> k * (1 - bb + bb * real dl / avg)" using assms by simp
  then show ?thesis using assms(5) by simp
qed

lemma idf_arg_pos:
  assumes "df \<le> n"
  shows "0 < (real n - real df + 0.5) / (real df + 0.5) + 1.0"
proof -
  have "0 \<le> (real n - real df + 0.5) / (real df + 0.5)" using assms by simp
  then show ?thesis by simp
qed

lemma tf_fit_nth:
  "i < length texts \<Longrightarrow> (tf (fit m texts) ! i) t =
     (if t \<in> set (tokenize (texts ! i)) then Some (spec_tf t (texts ! i)) else None)"
  by (simp add: fit_fields Counter_eq spec_tf_def)

lemma fit_scorable:
  assumes "0 \<le> k1 m" "0 \<le> b m" "b m \<le> 1" "doc_freqs (fit m texts) t = Some df"
  shows "0 < avg_dl (fit m texts)"
    and "\<forall>i<length texts. \<forall>freq. (tf (fit m texts) ! i) t = Some freq \<longrightarrow>
           0 < real freq + k1 m * (1 - b m + b m * real (doc_lens (fit m texts) ! i) / avg_dl (fit m texts))"
proof -
  have df: "0 < spec_df texts t" using assms(4) by (simp add: doc_freqs_fit split: if_splits)
  show avg: "0 < avg_dl (fit m texts)" using spec_df_pos_avgdl [OF df] by (simp add: fit_fields)
  show "\<forall>i<length texts. \<forall>freq. (tf (fit m texts) ! i) t = Some freq \<longrightarrow>
           0 < real freq + k1 m * (1 - b m + b m * real (doc_lens (fit m texts) ! i) / avg_dl (fit m texts))"
  proof (intro allI impI)
    fix i freq assume i: "i < length texts" and f: "(tf (fit m texts) ! i) t = Some freq"
    have "t \<in> set (tokenize (texts ! i))" "freq = count_list (tokenize (texts ! i)) t"
      using f i by (auto simp: tf_fit_nth spec_tf_def split: if_splits)
    then have "0 < freq" using count_list_0_iff [of "tokenize (texts ! i)" t] by simp
    then show "0 < real freq + k1 m * (1 - b m + b m * real (doc_lens (fit m texts) ! i) / avg_dl (fit m texts))"
      using denominator_pos [OF assms(1-3) avg] by simp
  qed
qed

lemma fit_model_ok:
  assumes "0 \<le> k1 m" "0 \<le> b m" "b m \<le> 1"
  shows "model_ok (fit m texts)"
  unfolding model_ok_def
proof (intro conjI allI impI)
  show "length (doc_lens (fit m texts)) = length (tf (fit m texts))" by (simp add: fit_fields)
next
  fix t df assume d: "doc_freqs (fit m texts) t = Some df"
  have "df = spec_df texts t" using d by (simp add: doc_freqs_fit split: if_splits)
  then have "df \<le> length texts" by (simp add: spec_df_le)
  then show "0 < (real (n_docs (fit m texts)) - real df + 0.5) / (real df + 0.5) + 1.0"
    using idf_arg_pos [of df "length texts"] by (simp add: fit_fields)
  show "scorable (fit m texts) t"
    using fit_scorable [OF assms d] unfolding scorable_def
    by (simp add: fit_fields) (metis less_numeral_extra(3))
qed

lemma search_run:
  assumes "model_ok m" "length (tf m) = n_docs m"
  shows "search m q top_k =
     Inr (filter (\<lambda>x. snd x > 0)
       (slice_to (sort_key (\<lambda>x. - snd x)
          (enumerate 0 (map (\<lambda>i. sum_list (map (\<lambda>t. term_total m t i) (tokenize q)))
             [0..<n_docs m]))) top_k))"
proof -
  let ?n = "n_docs m"
  have len: "length (replicate ?n (0::real)) = length (tf m)" using assms(2) by simp
  obtain scores where s: "score_terms m (tokenize q) (replicate ?n 0) = Inr scores"
    "length scores = ?n"
    "\<forall>i<?n. scores ! i = replicate ?n 0 ! i + sum_list (map (\<lambda>t. term_total m t i) (tokenize q))"
    using score_terms_run [OF assms(1) len, of "tokenize q"] by auto
  have "scores = map (\<lambda>i. sum_list (map (\<lambda>t. term_total m t i) (tokenize q))) [0..<?n]"
    using s(2,3) by (intro nth_equalityI) auto
  then show ?thesis using s(1) by (simp add: search_def Let_def)
qed

lemma term_total_fit:
  assumes "i < length texts"
  shows "term_total (fit m texts) t i =
     (if 0 < spec_df texts t then spec_term_score (k1 m) (b m) texts (texts ! i) t else 0)"
proof (cases "0 < spec_df texts t")
  case False
  then show ?thesis by (simp add: term_total_def doc_freqs_fit)
next
  case True
  have idf: "code_idf (fit m texts) (spec_df texts t) = spec_idf texts t"
    by (simp add: code_idf_def spec_idf_def fit_fields)
  have dl: "doc_lens (fit m texts) ! i = length (tokenize (texts ! i))"
    using assms by (simp add: fit_fields)
  show ?thesis
  proof (cases "t \<in> set (tokenize (texts ! i))")
    case in_doc: True
    then show ?thesis using True assms idf dl
      by (simp add: term_total_def doc_freqs_fit doc_term_score_def tf_fit_nth
          spec_term_score_def fit_fields(5-7))
  next
    case False
    then have "spec_tf t (texts ! i) = 0" by (simp add: spec_tf_def)
    then show ?thesis using True False assms
      by (simp add: term_total_def doc_freqs_fit doc_term_score_def tf_fit_nth
          spec_term_score_def)
  qed
qed

lemma score_sum_fit:
  assumes "i < length texts"
  shows "sum_list (map (\<lambda>t. term_total (fit m texts) t i) (tokenize query)) =
     spec_score (k1 m) (b m) texts query (texts ! i)"
  unfolding spec_score_def sum_list_map_filter'
  by (rule arg_cong [where f = sum_list]) (simp add: term_total_fit [OF assms])

lemma slice_to_length: "0 \<le> k \<Longrightarrow> int (length (slice_to xs k)) \<le> k"
  by (simp add: slice_to_def)

lemma slice_to_set: "set (slice_to xs k) \<subseteq> set xs"
  by (auto simp: slice_to_def dest: in_set_takeD)

lemma slice_to_sorted_wrt: "sorted_wrt P xs \<Longrightarrow> sorted_wrt P (slice_to xs k)"
  by (simp add: slice_to_def sorted_wrt_take)

lemma ranked_descending:
  "sorted_wrt (\<lambda>x y. y \<le> x)
     (map snd (filter Q (slice_to (sort_key (\<lambda>x. - snd x) (xs :: (nat \<times> real) list)) k)))"
proof -
  have "sorted (map (\<lambda>x. - snd x) (sort_key (\<lambda>x. - snd x) xs))" by (rule sorted_sort_key)
  then have "sorted_wrt (\<lambda>x y. snd y \<le> snd x) (sort_key (\<lambda>x. - snd x) xs)"
    by (simp add: sorted_map)
  then have "sorted_wrt (\<lambda>x y. snd y \<le> snd x)
      (filter Q (slice_to (sort_key (\<lambda>x. - snd x) xs) k))"
    by (intro sorted_wrt_filter slice_to_sorted_wrt)
  then show ?thesis by (simp add: sorted_wrt_map)
qed

lemma search_exact:
  "search (fit BM25_new texts) query top_k =
     Inr (filter (\<lambda>p. 0 < snd p)
       (slice_to (sort_key (\<lambda>p. - snd p)
          (enumerate 0 (map (spec_score 1.5 0.75 texts query) texts))) top_k))"
proof -
  let ?m = "fit BM25_new texts"
  have c: "0 \<le> k1 BM25_new" "0 \<le> b BM25_new" "b BM25_new \<le> 1"
    "k1 BM25_new = 1.5" "b BM25_new = 0.75"
    by (simp_all add: BM25_new_def BM25_init_def)
  have "map (\<lambda>i. sum_list (map (\<lambda>t. term_total ?m t i) (tokenize query))) [0..<length texts]
      = map (\<lambda>i. spec_score 1.5 0.75 texts query (texts ! i)) [0..<length texts]"
    by (rule map_cong) (simp_all add: score_sum_fit c(4,5))
  also have "\<dots> = map (spec_score 1.5 0.75 texts query) (map (\<lambda>i. texts ! i) [0..<length texts])"
    by (simp add: comp_def)
  also have "\<dots> = map (spec_score 1.5 0.75 texts query) texts"
    by (simp only: map_nth)
  finally have sc: "map (\<lambda>i. sum_list (map (\<lambda>t. term_total ?m t i) (tokenize query))) [0..<length texts]
      = map (spec_score 1.5 0.75 texts query) texts" .
  show ?thesis
    using search_run [OF fit_model_ok [OF c(1-3)], of texts query top_k]
    by (simp add: fit_fields(4) fit_fields(1) sc)
qed

lemma two_doc_ranking:
  "search (fit BM25_new [''cat dog'', ''dog dog dog'']) ''dog'' 20 =
     Inr [(1, ln (6 / 5) * (100 / 63)), (0, ln (6 / 5) * (100 / 91))]"
proof -
  have t: "tokenize ''dog'' = [''dog'']" "tokenize ''cat dog'' = [''cat'', ''dog'']"
    "tokenize ''dog dog dog'' = [''dog'', ''dog'', ''dog'']"
    by code_simp+
  have s0: "spec_score (3 / 2) (3 / 4) [''cat dog'', ''dog dog dog''] ''dog'' ''cat dog''
      = ln (6 / 5) * (100 / 91)"
    by (simp add: spec_score_def spec_term_score_def spec_idf_def spec_df_def spec_tf_def
        spec_avgdl_def t)
  have s1: "spec_score (3 / 2) (3 / 4) [''cat dog'', ''dog dog dog''] ''dog'' ''dog dog dog''
      = ln (6 / 5) * (100 / 63)"
    by (simp add: spec_score_def spec_term_score_def spec_idf_def spec_df_def spec_tf_def
        spec_avgdl_def t)
  have pos: "0 < ln (6 / 5 :: real)" by simp
  have lt: "ln (6 / 5) * (100 / 91) < ln (6 / 5 :: real) * (100 / 63)"
    using pos by (intro mult_strict_left_mono) simp_all
  show ?thesis
    using search_exact [of "[''cat dog'', ''dog dog dog'']" "''dog''" 20] pos lt
    by (simp add: s0 s1 slice_to_def)
qed

text \<open>
  C10 (as amended). For a model constructed with constants \<open>k1 \<ge> 0\<close> and \<open>0 \<le> b \<le> 1\<close>
  (the defaults 1.5 and 0.75 among them) and then fitted, \<open>search\<close> returns a result for
  every query and every \<open>top_k\<close>: no division by zero, no logarithm outside its domain,
  no list read out of range. A model fitted on no text returns the empty result. Whenever
  a term is in the fitted document-frequency table, the average document length is
  strictly positive and the denominator \<open>freq + k1 * (1 - b + b * dl / avgdl)\<close> of every
  chunk that holds the term is strictly positive.
\<close>

theorem bm25_search_total:
  assumes "0 \<le> k1 m" "0 \<le> b m" "b m \<le> 1"
  shows "(\<exists>r. search (fit m texts) query top_k = Inr r) \<and>
    search (fit m []) query top_k = Inr [] \<and>
    (\<forall>term df. doc_freqs (fit m texts) term = Some df \<longrightarrow>
       0 < avg_dl (fit m texts) \<and>
       (\<forall>i<length texts. \<forall>freq. (tf (fit m texts) ! i) term = Some freq \<longrightarrow>
          0 < real freq + k1 m * (1 - b m + b m * real (doc_lens (fit m texts) ! i)
                / avg_dl (fit m texts))))"
proof (intro conjI allI impI)
  show "\<exists>r. search (fit m texts) query top_k = Inr r"
    using search_run [OF fit_model_ok [OF assms]] by (simp add: fit_fields)
  show "search (fit m []) query top_k = Inr []"
    using search_run [OF fit_model_ok [OF assms], of "[]" query top_k]
    by (simp add: fit_fields slice_to_def)
next
  fix t df assume d: "doc_freqs (fit m texts) t = Some df"
  show "0 < avg_dl (fit m texts)" by (rule fit_scorable(1) [OF assms d])
  fix i freq assume "i < length texts" "(tf (fit m texts) ! i) t = Some freq"
  then show "0 < real freq + k1 m * (1 - b m + b m * real (doc_lens (fit m texts) ! i)
                / avg_dl (fit m texts))"
    using fit_scorable(2) [OF assms d] by blast
qed

theorem bm25_search_total_witness:
  "0 \<le> k1 BM25_new \<and> 0 \<le> b BM25_new \<and> b BM25_new \<le> 1 \<and>
   (\<exists>r. search (fit BM25_new [''cat dog'', ''dog dog dog'']) ''dog'' 20 = Inr r) \<and>
   doc_freqs (fit BM25_new [''cat dog'', ''dog dog dog'']) ''dog'' = Some 2 \<and>
   0 < avg_dl (fit BM25_new [''cat dog'', ''dog dog dog''])"
proof -
  have c: "0 \<le> k1 BM25_new" "0 \<le> b BM25_new" "b BM25_new \<le> 1"
    by (simp_all add: BM25_new_def BM25_init_def)
  have d: "doc_freqs (fit BM25_new [''cat dog'', ''dog dog dog'']) ''dog'' = Some 2"
    by (simp add: fit_def BM25_new_def BM25_init_def tokenize_def str_lower_def lower_char_def
        is_word_char_def df_count_def get_or_def)
  show ?thesis
    using c d bm25_search_total [OF c, of "[''cat dog'', ''dog dog dog'']" "''dog''" 20]
    by blast
qed

text \<open>
  C10 as stated, for every fitted model, fails: the constructor accepts any constants,
  and with \<open>k1 = -1\<close>, \<open>b = 0\<close> the denominator of the one chunk
  \<open>a\<close> for the query \<open>a\<close> is \<open>1 + (-1) * 1 = 0\<close>, so \<open>search\<close> raises
  \<open>ZeroDivisionError\<close>.
\<close>

theorem bm25_negative_k1_counterexample:
  "search (fit (BM25_init (- 1) 0) [''a'']) ''a'' 1 = Inl ZeroDivisionError"
proof -
  have t: "tokenize ''a'' = [''a'']" by code_simp
  show ?thesis
    by (simp add: search_def fit_def BM25_init_def t Counter_def df_count_def get_or_def)
qed

text \<open>
  C5 (as amended). For the texts fitted into a model built by \<open>BM25()\<close> and any query,
  \<open>search\<close> does not fail and returns exactly this list: every fitted position paired
  with its score, the sum over the query tokens that occur in the fitted vocabulary of
  \<open>idf(t) * tf(t,d) * (k1 + 1) / (tf(t,d) + k1 * (1 - b + b * |d| / avgdl))\<close> with
  \<open>idf(t) = ln ((N - df(t) + 0.5) / (df(t) + 0.5) + 1)\<close>, \<open>k1 = 1.5\<close> and \<open>b = 0.75\<close> (a
  token outside the vocabulary adds nothing); stably sorted by descending score; cut to
  the first \<open>top_k\<close> entries when \<open>top_k \<ge> 0\<close> and to all but the last \<open>-top_k\<close> entries
  when \<open>top_k < 0\<close>; and then with the entries of score \<open>\<le> 0\<close> dropped. So the result has
  at most \<open>top_k\<close> entries when \<open>top_k \<ge> 0\<close>, is in descending order of score, and every
  entry has a fitted position and a strictly positive score equal to that sum.
\<close>

theorem bm25_search_contract:
  "\<exists>r. search (fit BM25_new texts) query top_k = Inr r \<and>
     r = filter (\<lambda>p. 0 < snd p)
           (take (if 0 \<le> top_k then nat top_k else length texts - nat (- top_k))
              (sort_key (\<lambda>p. - snd p)
                 (enumerate 0 (map (spec_score 1.5 0.75 texts query) texts)))) \<and>
     (0 \<le> top_k \<longrightarrow> int (length r) \<le> top_k) \<and>
     sorted_wrt (\<lambda>x y. y \<le> x) (map snd r) \<and>
     (\<forall>(i, s)\<in>set r. i < length texts \<and> 0 < s \<and>
        s = spec_score 1.5 0.75 texts query (texts ! i))"
proof -
  let ?ranked = "sort_key (\<lambda>p. - snd p)
                 (enumerate 0 (map (spec_score 1.5 0.75 texts query) texts))"
  let ?n = "if 0 \<le> top_k then nat top_k else length texts - nat (- top_k)"
  let ?r = "filter (\<lambda>p. 0 < snd p) (take ?n ?ranked)"
  have sl: "slice_to ?ranked top_k = take ?n ?ranked"
    by (simp add: slice_to_def)
  have run: "search (fit BM25_new texts) query top_k = Inr ?r"
    unfolding search_exact sl by (rule refl)
  have len: "0 \<le> top_k \<longrightarrow> int (length ?r) \<le> top_k"
  proof
    assume k: "0 \<le> top_k"
    have "length ?r \<le> length (take ?n ?ranked)" by (rule length_filter_le)
    also have "\<dots> \<le> nat top_k" using k by simp
    finally show "int (length ?r) \<le> top_k" using k by linarith
  qed
  have desc: "sorted_wrt (\<lambda>x y. y \<le> x) (map snd ?r)"
    using ranked_descending [of "\<lambda>p. 0 < snd p"
        "enumerate 0 (map (spec_score 1.5 0.75 texts query) texts)" top_k]
    unfolding sl by simp
  have each: "\<forall>(i, s)\<in>set ?r. i < length texts \<and> 0 < s \<and>
        s = spec_score 1.5 0.75 texts query (texts ! i)"
  proof (clarify, intro conjI)
    fix i s assume m: "(i, s) \<in> set ?r"
    then show "0 < s" by simp
    from m have "(i, s) \<in> set (take ?n ?ranked)" by simp
    then have "(i, s) \<in> set ?ranked" by (rule in_set_takeD)
    then have "(i, s) \<in> set (enumerate 0 (map (spec_score 1.5 0.75 texts query) texts))"
      by simp
    then show "i < length texts" and "s = spec_score 1.5 0.75 texts query (texts ! i)"
      by (auto simp: in_set_enumerate_eq)
  qed
  show ?thesis using run len desc each by blast
qed

theorem bm25_search_contract_witness:
  "(0::int) \<le> 20 \<and>
   (\<exists>r. search (fit BM25_new [''cat dog'', ''dog dog dog'']) ''dog'' 20 = Inr r \<and>
      r = filter (\<lambda>p. 0 < snd p)
           (take (nat 20)
              (sort_key (\<lambda>p. - snd p)
                 (enumerate 0 (map (spec_score 1.5 0.75 [''cat dog'', ''dog dog dog''] ''dog'')
                    [''cat dog'', ''dog dog dog''])))) \<and>
      int (length r) \<le> 20 \<and>
      sorted_wrt (\<lambda>x y. y \<le> x) (map snd r) \<and>
      (\<forall>(i, s)\<in>set r. i < length [''cat dog'', ''dog dog dog''] \<and> 0 < s \<and>
         s = spec_score 1.5 0.75 [''cat dog'', ''dog dog dog''] ''dog''
               ([''cat dog'', ''dog dog dog''] ! i)))"
  using bm25_search_contract [of "[''cat dog'', ''dog dog dog'']" "''dog''" 20]
  by simp

text \<open>
  C5 as stated, with the bound of \<open>top_k\<close> entries for every \<open>top_k\<close>, fails: on two texts
  \<open>a\<close> and the query \<open>a\<close>, \<open>top_k = -1\<close> is the slice \<open>ranked[:-1]\<close> and returns one entry.
\<close>

theorem bm25_search_top_k_counterexample:
  "search (fit BM25_new [''a'', ''a'']) ''a'' (- 1) = Inr [(0, ln (6 / 5))] \<and>
   \<not> int (length [(0::nat, ln (6 / 5 :: real))]) \<le> - 1"
proof -
  have t: "tokenize ''a'' = [''a'']" by code_simp
  have sc: "spec_score (3 / 2) (3 / 4) [''a'', ''a''] ''a'' ''a'' = ln (6 / 5)"
    by (simp add: spec_score_def spec_term_score_def spec_idf_def spec_df_def spec_tf_def
        spec_avgdl_def t)
  show ?thesis
    using search_exact [of "[''a'', ''a'']" "''a''" "- 1"]
    by (simp add: sc slice_to_def)
qed

section \<open>Reciprocal rank fusion\<close>

lemma rank_gain_Nil [simp]: "rank_gain k n [] x = 0"
  by (simp add: rank_gain_def)

lemma rank_gain_Cons [simp]:
  "rank_gain k n (p # ranked) x =
     (if fst p = x then 1 / real_of_int (k + int n + 1) else 0) + rank_gain k (Suc n) ranked x"
  by (simp add: rank_gain_def)

lemma score_of_update [simp]:
  "score_of (AList.update d v scores) x = (if x = d then v else score_of scores x)"
  by (simp add: score_of_def update_conv')

lemma rrf_ranked_run:
  assumes "0 \<le> k"
  shows "\<exists>scores'. rrf_ranked k (enumerate n ranked) scores = Inr scores' \<and>
           (\<forall>x. score_of scores' x = score_of scores x + rank_gain k n ranked x) \<and>
           fst ` set scores' = fst ` set scores \<union> fst ` set ranked \<and>
           (distinct (map fst scores) \<longrightarrow> distinct (map fst scores'))"
proof (induction ranked arbitrary: n scores)
  case Nil
  then show ?case by simp
next
  case (Cons p ranked)
  obtain d v where p: "p = (d, v)" by (cases p)
  let ?s = "AList.update d (score_of scores d + 1.0 / real_of_int (k + int n + 1)) scores"
  obtain scores' where s: "rrf_ranked k (enumerate (Suc n) ranked) ?s = Inr scores'"
    "\<forall>x. score_of scores' x = score_of ?s x + rank_gain k (Suc n) ranked x"
    "fst ` set scores' = fst ` set ?s \<union> fst ` set ranked"
    "distinct (map fst ?s) \<longrightarrow> distinct (map fst scores')"
    using Cons.IH [of "Suc n" ?s] by blast
  have nz: "k + int n + 1 \<noteq> 0" using assms by simp
  have "rrf_ranked k (enumerate n (p # ranked)) scores = Inr scores'"
    using s(1) nz by (simp add: p)
  moreover have "\<forall>x. score_of scores' x = score_of scores x + rank_gain k n (p # ranked) x"
    using s(2) by (simp add: p)
  moreover have "fst ` set scores' = fst ` set scores \<union> fst ` set (p # ranked)"
    using s(3) by (simp add: p dom_update)
  moreover have "distinct (map fst scores) \<longrightarrow> distinct (map fst scores')"
    using s(4) by (simp add: distinct_update)
  ultimately show ?case by blast
qed

lemma rrf_lists_run:
  assumes "0 \<le> k"
  shows "\<exists>scores'. rrf_lists k ranked_lists scores = Inr scores' \<and>
           (\<forall>x. score_of scores' x =
              score_of scores x + sum_list (map (\<lambda>r. rank_gain k 0 r x) ranked_lists)) \<and>
           fst ` set scores' = fst ` set scores \<union> (\<Union>r\<in>set ranked_lists. fst ` set r) \<and>
           (distinct (map fst scores) \<longrightarrow> distinct (map fst scores'))"
proof (induction ranked_lists arbitrary: scores)
  case Nil
  then show ?case by simp
next
  case (Cons r ranked_lists)
  obtain s1 where s1: "rrf_ranked k (enumerate 0 r) scores = Inr s1"
    "\<forall>x. score_of s1 x = score_of scores x + rank_gain k 0 r x"
    "fst ` set s1 = fst ` set scores \<union> fst ` set r"
    "distinct (map fst scores) \<longrightarrow> distinct (map fst s1)"
    using rrf_ranked_run [OF assms, of 0 r scores] by blast
  obtain s2 where s2: "rrf_lists k ranked_lists s1 = Inr s2"
    "\<forall>x. score_of s2 x = score_of s1 x + sum_list (map (\<lambda>r. rank_gain k 0 r x) ranked_lists)"
    "fst ` set s2 = fst ` set s1 \<union> (\<Union>r\<in>set ranked_lists. fst ` set r)"
    "distinct (map fst s1) \<longrightarrow> distinct (map fst s2)"
    using Cons.IH [of s1] by blast
  have "rrf_lists k (r # ranked_lists) scores = Inr s2" using s1(1) s2(1) by simp
  moreover have "\<forall>x. score_of s2 x =
      score_of scores x + sum_list (map (\<lambda>r. rank_gain k 0 r x) (r # ranked_lists))"
    using s1(2) s2(2) by simp
  moreover have "fst ` set s2 = fst ` set scores \<union> (\<Union>r\<in>set (r # ranked_lists). fst ` set r)"
    using s1(3) s2(3) by auto
  moreover have "distinct (map fst scores) \<longrightarrow> distinct (map fst s2)"
    using s1(4) s2(4) by simp
  ultimately show ?case by blast
qed

lemma rank_gain_absent: "x \<notin> fst ` set ranked \<Longrightarrow> rank_gain k n ranked x = 0"
  by (induction ranked arbitrary: n) auto

lemma rank_gain_bound:
  assumes "0 \<le> k" "distinct (map fst ranked)"
  shows "0 \<le> rank_gain k n ranked x \<and> rank_gain k n ranked x \<le> 1 / real_of_int (k + int n + 1)"
  using assms(2)
proof (induction ranked arbitrary: n)
  case Nil
  then show ?case using assms(1) by simp
next
  case (Cons p ranked)
  show ?case
  proof (cases "fst p = x")
    case True
    then have "x \<notin> fst ` set ranked" using Cons.prems by auto
    then show ?thesis using True assms(1) by (simp add: rank_gain_absent)
  next
    case False
    have "rank_gain k (Suc n) ranked x \<le> 1 / real_of_int (k + int (Suc n) + 1)"
      and "0 \<le> rank_gain k (Suc n) ranked x"
      using Cons.IH [of "Suc n"] Cons.prems by auto
    moreover have "1 / real_of_int (k + int (Suc n) + 1) \<le> 1 / real_of_int (k + int n + 1)"
      using assms(1) by (intro divide_left_mono) auto
    ultimately show ?thesis using False by simp
  qed
qed

lemma rank_gain_first:
  assumes "0 \<le> k" "ranked \<noteq> []" "fst (hd ranked) = d" "distinct (map fst ranked)"
  shows "rank_gain k 0 ranked d = 1 / real_of_int (k + 1)"
    and "x \<noteq> d \<Longrightarrow> rank_gain k 0 ranked x \<le> 1 / real_of_int (k + 2)"
    and "0 \<le> rank_gain k 0 ranked x"
proof -
  obtain p rest where r: "ranked = p # rest" using assms(2) by (cases ranked) auto
  have d: "fst p = d" "d \<notin> fst ` set rest" "distinct (map fst rest)"
    using assms(3,4) r by auto
  show "rank_gain k 0 ranked d = 1 / real_of_int (k + 1)"
    using d by (simp add: r rank_gain_absent)
  show "0 \<le> rank_gain k 0 ranked x" using rank_gain_bound [OF assms(1,4)] by blast
  assume "x \<noteq> d"
  then show "rank_gain k 0 ranked x \<le> 1 / real_of_int (k + 2)"
    using rank_gain_bound [OF assms(1) d(3), of 1 x] d(1) by (simp add: r add.commute)
qed

lemma sum_list_const_le:
  "(\<And>r. r \<in> set rs \<Longrightarrow> f r \<le> (c::real)) \<Longrightarrow> sum_list (map f rs) \<le> real (length rs) * c"
proof (induction rs)
  case Nil
  then show ?case by simp
next
  case (Cons a rs)
  have "f a \<le> c" "sum_list (map f rs) \<le> real (length rs) * c"
    using Cons by auto
  then show ?case by (simp add: algebra_simps)
qed

lemma sum_list_const_eq:
  "(\<And>r. r \<in> set rs \<Longrightarrow> f r = (c::real)) \<Longrightarrow> sum_list (map f rs) = real (length rs) * c"
  by (induction rs) (auto simp: algebra_simps)

lemma hd_sort_key_max:
  assumes "p \<in> set xs" "\<And>q. q \<in> set xs \<Longrightarrow> q \<noteq> p \<Longrightarrow> snd q < snd (p :: 'd \<times> real)"
  shows "hd (sort_key (\<lambda>x. - snd x) xs) = p"
proof -
  let ?out = "sort_key (\<lambda>x. - snd x) xs"
  have ne: "?out \<noteq> []" using assms(1) by (metis empty_iff empty_set set_sort)
  then obtain q rest where o: "?out = q # rest" by (cases ?out) auto
  have sorted: "sorted (map (\<lambda>x. - snd x) ?out)" by (rule sorted_sort_key)
  have q: "q \<in> set xs" using o by (metis list.set_intros(1) set_sort)
  have "p \<in> set ?out" using assms(1) by simp
  then have "- snd q \<le> - snd p" using sorted o by auto
  then have "q = p" using assms(2) [OF q] by (cases "q = p") auto
  then show ?thesis using o by simp
qed

text \<open>
  C6 (as amended). For a non-empty collection of ranked lists in which no list names a
  chunk position twice, and a constant \<open>k \<ge> 0\<close>: if one position \<open>d\<close> is at rank 0 of every list, then
  \<open>rrf_fuse\<close> returns a result whose first entry is \<open>d\<close> with the score
  \<open>number of lists / (k + 1)\<close>; every entry's score is the sum over the lists of
  \<open>1 / (k + r + 1)\<close> for its rank \<open>r\<close> in that list and of nothing for a list it is
  absent from, no score exceeds that of \<open>d\<close>, and every other position's is strictly below.
\<close>

theorem rrf_first_in_every_list:
  assumes "0 \<le> k" "ranked_lists \<noteq> []"
    and "\<forall>r\<in>set ranked_lists. r \<noteq> [] \<and> fst (hd r) = d \<and> distinct (map fst r)"
  shows "\<exists>fused. rrf_fuse ranked_lists k = Inr fused \<and> fused \<noteq> [] \<and>
     hd fused = (d, real (length ranked_lists) / real_of_int (k + 1)) \<and>
     (\<forall>(x, s)\<in>set fused.
        s = sum_list (map (\<lambda>r. rank_gain k 0 r x) ranked_lists) \<and>
        s \<le> real (length ranked_lists) / real_of_int (k + 1) \<and>
        (x \<noteq> d \<longrightarrow> s < real (length ranked_lists) / real_of_int (k + 1)))"
proof -
  let ?n = "real (length ranked_lists)"
  let ?total = "\<lambda>x. sum_list (map (\<lambda>r. rank_gain k 0 r x) ranked_lists)"
  obtain scores where sc: "rrf_lists k ranked_lists [] = Inr scores"
    "\<forall>x. score_of scores x = score_of [] x + ?total x"
    "fst ` set scores = fst ` set [] \<union> (\<Union>r\<in>set ranked_lists. fst ` set r)"
    "distinct (map fst scores)"
    using rrf_lists_run [OF assms(1), of ranked_lists "[]"] by auto
  have val: "s = ?total x" if "(x, s) \<in> set scores" for x s
  proof -
    have "map_of scores x = Some s" using that sc(4) by simp
    then have "score_of scores x = s" by (simp add: score_of_def)
    moreover have "score_of scores x = ?total x" using sc(2) by (simp add: score_of_def)
    ultimately show ?thesis by simp
  qed
  have n: "0 < ?n" using assms(2) by simp
  have k1: "0 < real_of_int (k + 1)" and k2: "0 < real_of_int (k + 2)" using assms(1) by auto
  have "rank_gain k 0 r d = 1 / real_of_int (k + 1)" if "r \<in> set ranked_lists" for r
    using rank_gain_first(1) [OF assms(1), of r d] assms(3) that by blast
  then have "?total d = ?n * (1 / real_of_int (k + 1))"
    by (rule sum_list_const_eq)
  then have td: "?total d = ?n / real_of_int (k + 1)" by simp
  have other: "?total x < ?n / real_of_int (k + 1)" if "x \<noteq> d" for x
  proof -
    have "rank_gain k 0 r x \<le> 1 / real_of_int (k + 2)" if "r \<in> set ranked_lists" for r
      using rank_gain_first(2) [OF assms(1), of r d x] assms(3) that \<open>x \<noteq> d\<close> by blast
    then have "?total x \<le> ?n * (1 / real_of_int (k + 2))"
      by (rule sum_list_const_le)
    moreover have "?n * (1 / real_of_int (k + 2)) < ?n * (1 / real_of_int (k + 1))"
      using n k1 assms(1) by (intro mult_strict_left_mono divide_strict_left_mono) auto
    ultimately show ?thesis by simp
  qed
  have le: "?total x \<le> ?n / real_of_int (k + 1)" for x
    using td other [of x] by (cases "x = d") auto
  obtain r0 where r0: "r0 \<in> set ranked_lists" using assms(2) by (cases ranked_lists) auto
  then have "d \<in> fst ` set r0" using assms(3) by (metis hd_in_set imageI)
  then have "d \<in> fst ` set scores" using sc(3) r0 by auto
  then obtain sd where sd: "(d, sd) \<in> set scores" by auto
  then have sdv: "sd = ?n / real_of_int (k + 1)" using val td by simp
  let ?fused = "sort_key (\<lambda>x. - snd x) scores"
  have run: "rrf_fuse ranked_lists k = Inr ?fused" using sc(1) by (simp add: rrf_fuse_def)
  have ne: "?fused \<noteq> []" using sd by (metis empty_iff empty_set set_sort)
  have hd: "hd ?fused = (d, sd)"
  proof (rule hd_sort_key_max [OF sd])
    fix q assume q: "q \<in> set scores" "q \<noteq> (d, sd)"
    obtain x s where qq: "q = (x, s)" by (cases q)
    have "x \<noteq> d"
    proof
      assume "x = d"
      then have "s = sd" using val q(1) sd qq by metis
      then show False using q(2) qq \<open>x = d\<close> by simp
    qed
    then have "?total x < ?n / real_of_int (k + 1)" by (rule other)
    moreover have "s = ?total x" using val q(1) qq by blast
    ultimately show "snd q < snd (d, sd)" using qq sdv by simp
  qed
  have all: "\<forall>(x, s)\<in>set ?fused.
        s = ?total x \<and> s \<le> ?n / real_of_int (k + 1) \<and>
        (x \<noteq> d \<longrightarrow> s < ?n / real_of_int (k + 1))"
  proof (clarify, intro conjI impI)
    fix x s assume "(x, s) \<in> set ?fused"
    then have v: "s = ?total x" using val by simp
    show "s = ?total x" by (rule v)
    show "s \<le> ?n / real_of_int (k + 1)" using v le [of x] by simp
    assume "x \<noteq> d"
    then show "s < ?n / real_of_int (k + 1)" using v other [of x] by simp
  qed
  show ?thesis using run ne hd sdv all by blast
qed

theorem rrf_first_in_every_list_witness:
  "(0::int) \<le> 60 \<and> [[(5::nat, 0.9::real), (7, 0.3)], [(5, 2.5), (3, 1.0), (7, 0.5)]] \<noteq> [] \<and>
   rrf_fuse [[(5::nat, 0.9), (7, 0.3)], [(5, 2.5), (3, 1.0), (7, 0.5)]] 60
     = Inr [(5, 2 / 61), (7, 1 / 62 + 1 / 63), (3, 1 / 62)] \<and>
   (\<exists>fused. rrf_fuse [[(5::nat, 0.9), (7, 0.3)], [(5, 2.5), (3, 1.0), (7, 0.5)]] 60 = Inr fused \<and>
      hd fused = (5, real (length [[(5::nat, 0.9::real), (7, 0.3)], [(5, 2.5), (3, 1.0), (7, 0.5)]])
                      / real_of_int (60 + 1)))"
proof -
  let ?L = "[[(5::nat, 0.9::real), (7, 0.3)], [(5, 2.5), (3, 1.0), (7, 0.5)]]"
  have k: "(0::int) \<le> 60" by simp
  have ne: "?L \<noteq> []" by simp
  have h: "\<forall>r\<in>set ?L. r \<noteq> [] \<and> fst (hd r) = 5 \<and> distinct (map fst r)" by simp
  have e: "rrf_fuse ?L 60 = Inr [(5, 2 / 61), (7, 1 / 62 + 1 / 63), (3, 1 / 62)]"
    by (simp add: rrf_fuse_def enumerate_eq_zip score_of_def upt_rec)
  show ?thesis using k ne e rrf_first_in_every_list [OF k ne h] by blast
qed

text \<open>
  C6 as stated, for all lists and every \<open>k\<close>, fails: in the single
  list \<open>5, 7, 7\<close> with \<open>k = 60\<close> position 5 is at rank 0 and gets \<open>1 / 61\<close>, the maximum
  of the claim, but position 7 gets \<open>1 / 62 + 1 / 63\<close> and comes first; and with
  \<open>k = -1\<close> the rank-0 contribution \<open>1 / (k + 0 + 1)\<close> raises \<open>ZeroDivisionError\<close>.
\<close>

theorem rrf_counterexample:
  "rrf_fuse [[(5::nat, 0.9), (7, 0.3), (7, 0.2)]] 60 = Inr [(7, 1 / 62 + 1 / 63), (5, 1 / 61)] \<and>
   rrf_fuse [[(5::nat, 0.9)]] (- 1) = Inl ZeroDivisionError"
  by (simp add: rrf_fuse_def enumerate_eq_zip score_of_def upt_rec)

section \<open>The index: build, reindex, save and load\<close>

lemma supported_iff:
  "supported name \<longleftrightarrow> str_lower (path_suffix name) = ''.pdf'' \<or> str_lower (path_suffix name) = ''.docx''"
  by (simp add: supported_def SUPPORTED_EXTENSIONS_def)

lemma open_file_present:
  "name \<in> fname ` set folder \<Longrightarrow> \<exists>f. open_file folder name = Inr f"
  by (auto simp: open_file_def find_None_iff split: option.splits)


lemma load_document_present:
  assumes "supported name" "name \<in> fname ` set folder"
  shows "\<exists>t. load_document folder name = Inr t"
proof -
  obtain f where "open_file folder name = Inr f" using open_file_present [OF assms(2)] by blast
  then show ?thesis using assms(1)
    by (auto simp: load_document_def load_pdf_def load_docx_def supported_iff)
qed

lemma set_iterdir_sorted [simp]: "set (iterdir_sorted folder) = set folder"
  by (simp add: iterdir_sorted_def)

lemma hashes_fold_keys:
  "fst ` set (fold (\<lambda>f hashes. if supported (fname f) then AList.update (fname f) (digest f) hashes
                               else hashes) fs acc) =
     fst ` set acc \<union> {fname f |f. f \<in> set fs \<and> supported (fname f)}"
  by (induction fs arbitrary: acc) (auto simp: dom_update)

lemma hashes_fold_distinct:
  "distinct (map fst acc) \<Longrightarrow>
   distinct (map fst (fold (\<lambda>f hashes. if supported (fname f) then AList.update (fname f) (digest f) hashes
                               else hashes) fs acc))"
  by (induction fs arbitrary: acc) (auto simp: distinct_update)

lemma compute_file_hashes_keys:
  "fst ` set (compute_file_hashes docs_dir) = {fname f |f. f \<in> set docs_dir \<and> supported (fname f)}"
  by (simp add: compute_file_hashes_def hashes_fold_keys)

lemma compute_file_hashes_distinct: "distinct (map fst (compute_file_hashes docs_dir))"
  by (simp add: compute_file_hashes_def hashes_fold_distinct)

lemma hashed_loadable:
  assumes "name \<in> fst ` set (compute_file_hashes docs_dir)"
  shows "\<exists>t. load_document docs_dir name = Inr t" and "\<exists>h. map_of (compute_file_hashes docs_dir) name = Some h"
proof -
  have "supported name" "name \<in> fname ` set docs_dir"
    using assms by (auto simp: compute_file_hashes_keys)
  then show "\<exists>t. load_document docs_dir name = Inr t" by (rule load_document_present)
  show "\<exists>h. map_of (compute_file_hashes docs_dir) name = Some h"
    using assms by (metis domD dom_map_of_conv_image_fst)
qed

lemma nth_filter_upt:
  "map (\<lambda>i. xs ! i) (filter (\<lambda>i. P (xs ! i)) [0..<length xs]) = filter P xs"
proof (induction xs rule: rev_induct)
  case Nil
  then show ?case by simp
next
  case (snoc x xs)
  have a: "filter (\<lambda>i. P ((xs @ [x]) ! i)) [0..<length xs] = filter (\<lambda>i. P (xs ! i)) [0..<length xs]"
    by (rule filter_cong) (auto simp: nth_append)
  have b: "map (\<lambda>i. (xs @ [x]) ! i) (filter (\<lambda>i. P (xs ! i)) [0..<length xs])
         = map (\<lambda>i. xs ! i) (filter (\<lambda>i. P (xs ! i)) [0..<length xs])"
    by (rule map_cong) (auto simp: nth_append)
  show ?case using snoc by (simp add: a b)
qed

lemma nth_filter_upt_zip:
  assumes "length ys = length xs"
  shows "map (\<lambda>i. ys ! i) (filter (\<lambda>i. P (xs ! i)) [0..<length xs])
       = map snd (filter (\<lambda>p. P (fst p)) (zip xs ys))"
proof -
  define zs where "zs = zip xs ys"
  define L where "L = filter (\<lambda>i. P (xs ! i)) [0..<length xs]"
  have len: "length zs = length xs" using assms by (simp add: zs_def)
  have a: "filter (\<lambda>i. P (fst (zs ! i))) [0..<length xs] = L"
    unfolding L_def by (rule filter_cong) (auto simp: assms zs_def)
  have b: "map (\<lambda>i. snd (zs ! i)) L = map (\<lambda>i. ys ! i) L"
    by (rule map_cong) (auto simp: assms zs_def L_def)
  have "map (\<lambda>i. zs ! i) (filter (\<lambda>i. P (fst (zs ! i))) [0..<length zs]) = filter (\<lambda>p. P (fst p)) zs"
    by (rule nth_filter_upt [of zs "\<lambda>p. P (fst p)"])
  then have "map (\<lambda>i. zs ! i) L = filter (\<lambda>p. P (fst p)) zs"
    by (simp only: len a)
  then have "map snd (map (\<lambda>i. zs ! i) L) = map snd (filter (\<lambda>p. P (fst p)) zs)"
    by (rule arg_cong)
  then have "map (\<lambda>i. snd (zs ! i)) L = map snd (filter (\<lambda>p. P (fst p)) zs)"
    by (simp add: comp_def)
  then show ?thesis using b by (simp add: L_def zs_def)
qed

lemma filter_upt_empty_iff:
  "filter (\<lambda>i. P (xs ! i)) [0..<length xs] = [] \<longleftrightarrow> filter P xs = []"
  using nth_filter_upt [of xs P] by (metis map_is_Nil_conv)

lemma remove_files_eq:
  assumes "length (emb_rows self) = length (chunks self)"
  shows "remove_files R self =
     Inr (self\<lparr>chunks := filter (\<lambda>c. filename c \<notin> set R) (chunks self),
              embeddings := (if filter (\<lambda>c. filename c \<notin> set R) (chunks self) = [] then None
                 else Some (map snd (filter (\<lambda>p. filename (fst p) \<notin> set R)
                                 (zip (chunks self) (emb_rows self))))),
              manifest := fold AList.delete R (manifest self)\<rparr>)"
proof -
  define keep where
    "keep = filter (\<lambda>i. filename (chunks self ! i) \<notin> set R) [0..<length (chunks self)]"
  define kept where "kept = filter (\<lambda>c. filename c \<notin> set R) (chunks self)"
  have k1: "map (\<lambda>i. chunks self ! i) keep = kept"
    unfolding keep_def kept_def by (rule nth_filter_upt [of "chunks self" "\<lambda>c. filename c \<notin> set R"])
  have k2: "keep = [] \<longleftrightarrow> kept = []" using k1 by (metis map_is_Nil_conv)
  have unf: "remove_files R self =
     (let self1 = self\<lparr>chunks := map (\<lambda>i. chunks self ! i) keep\<rparr>;
          man = fold AList.delete R (manifest self)
      in (case embeddings self of
            Some rs0 \<Rightarrow>
              if keep \<noteq> []
              then (if \<forall>i\<in>set keep. i < length rs0
                    then Inr (self1\<lparr>embeddings := Some (map (\<lambda>i. rs0 ! i) keep),
                                    manifest := man\<rparr>)
                    else Inl IndexError)
              else Inr (self1\<lparr>embeddings := None, manifest := man\<rparr>)
          | None \<Rightarrow>
              if keep = [] then Inr (self1\<lparr>embeddings := None, manifest := man\<rparr>)
              else Inr (self1\<lparr>manifest := man\<rparr>)))"
    unfolding remove_files_def keep_def Let_def by (rule refl)
  show ?thesis
  proof (cases "embeddings self")
    case None
    then have "chunks self = []" using assms by (simp add: emb_rows_def)
    then have "keep = []" "kept = []" by (simp_all add: keep_def kept_def)
    then show ?thesis unfolding unf kept_def [symmetric] using None k1 by (simp add: Let_def)
  next
    case (Some rs)
    then have len: "length rs = length (chunks self)" and r: "emb_rows self = rs"
      using assms by (simp_all add: emb_rows_def)
    have sel: "map (\<lambda>i. rs ! i) keep
             = map snd (filter (\<lambda>p. filename (fst p) \<notin> set R) (zip (chunks self) rs))"
      unfolding keep_def
      by (rule nth_filter_upt_zip [OF len, of "\<lambda>c. filename c \<notin> set R"])
    have inb: "\<forall>i\<in>set keep. i < length rs" using len by (simp add: keep_def)
    show ?thesis
      unfolding unf kept_def [symmetric] r
      using Some inb sel k1 k2 by (simp add: Let_def)
  qed
qed

lemma length_make_chunks [simp]: "length (make_chunks name ts) = length ts"
  by (simp add: make_chunks_def)

lemma ctext_make_chunks [simp]: "map ctext (make_chunks name ts) = ts"
proof -
  have "map ctext (make_chunks name ts) = map snd (enumerate 0 ts)"
    by (simp add: make_chunks_def case_prod_unfold comp_def)
  then show ?thesis by simp
qed

lemma filename_make_chunks [simp]:
  "c \<in> set (make_chunks name ts) \<Longrightarrow> filename c = name"
  by (auto simp: make_chunks_def)

lemma make_chunks_Nil [simp]: "make_chunks name [] = []"
  by (simp add: make_chunks_def)

lemma new_chunks_simps [simp]:
  "new_chunks d [] = []"
  "new_chunks d (n # names) = make_chunks n (doc_chunks d n) @ new_chunks d names"
  by (simp_all add: new_chunks_def)

lemma ctext_new_chunks: "map ctext (new_chunks d names) = concat (map (doc_chunks d) names)"
  by (induction names) simp_all

lemma filename_new_chunks: "c \<in> set (new_chunks d names) \<Longrightarrow> filename c \<in> set names"
  by (induction names) auto

lemma add_loop_run:
  assumes "\<forall>n\<in>set names. (\<exists>t. load_document d n = Inr t) \<and> (\<exists>h. map_of fh n = Some h)"
  shows "\<exists>man'. add_loop d fh names cs man txts =
            Inr (cs @ new_chunks d names, man', txts @ concat (map (doc_chunks d) names)) \<and>
            added_entries d fh names man man'"
  using assms
proof (induction names arbitrary: cs man txts)
  case Nil
  then show ?case by (simp add: added_entries_def)
next
  case (Cons name names)
  obtain t h where t: "load_document d name = Inr t" and h: "map_of fh name = Some h"
    using Cons.prems by auto
  have dc: "chunk_text t CHUNK_SIZE CHUNK_OVERLAP = doc_chunks d name"
    using t by (simp add: doc_chunks_def)
  let ?cs = "cs @ make_chunks name (doc_chunks d name)"
  let ?en = "\<lparr>hash = h, chunk_start = length cs, chunk_end = length ?cs\<rparr>"
  let ?man = "AList.update name ?en man"
  obtain man' where r: "add_loop d fh names ?cs ?man (txts @ doc_chunks d name) =
       Inr (?cs @ new_chunks d names, man', (txts @ doc_chunks d name) @ concat (map (doc_chunks d) names))"
    and a: "added_entries d fh names ?man man'"
    using Cons.IH [of ?cs ?man "txts @ doc_chunks d name"] Cons.prems by auto
  have run: "add_loop d fh (name # names) cs man txts =
       Inr (cs @ new_chunks d (name # names), man', txts @ concat (map (doc_chunks d) (name # names)))"
    using t h dc r by (simp add: Let_def)
  have "added_entries d fh (name # names) man man'"
    unfolding added_entries_def
  proof (intro conjI allI impI ballI)
    show "fst ` set man' = fst ` set man \<union> set (name # names)"
      using a by (auto simp: added_entries_def dom_update)
    show "distinct (map fst man')" if "distinct (map fst man)"
      using a that by (simp add: added_entries_def distinct_update)
    show "map_of man' n = map_of man n" if "n \<notin> set (name # names)" for n
      using a that by (simp add: added_entries_def update_conv')
    show "\<exists>e. map_of man' n = Some e \<and> Some (hash e) = map_of fh n \<and>
          (doc_chunks d n = [] \<longrightarrow> chunk_start e = chunk_end e)" if "n \<in> set (name # names)" for n
    proof (cases "n \<in> set names")
      case True
      then show ?thesis using a by (simp add: added_entries_def)
    next
      case False
      then have "n = name" using that by simp
      moreover have "map_of man' name = Some ?en"
        using a False \<open>n = name\<close> by (simp add: added_entries_def update_conv')
      ultimately show ?thesis using h by simp
    qed
  qed
  then show ?case using run by blast
qed

lemma add_files_run:
  assumes "\<forall>n\<in>set names. (\<exists>t. load_document d n = Inr t) \<and>
             (\<exists>h. map_of (compute_file_hashes d) n = Some h)"
  shows "\<exists>man'. add_files emb d names self =
            Inr (self\<lparr>chunks := chunks self @ new_chunks d names,
                     embeddings := Some (emb_rows self @ map emb (map ctext (new_chunks d names))),
                     manifest := man', has_embedder := True\<rparr>) \<and>
            added_entries d (compute_file_hashes d) names (manifest self) man'"
proof -
  obtain man' where r: "add_loop d (compute_file_hashes d) names (chunks self) (manifest self) [] =
            Inr (chunks self @ new_chunks d names, man', [] @ concat (map (doc_chunks d) names))"
    and a: "added_entries d (compute_file_hashes d) names (manifest self) man'"
    using add_loop_run [OF assms, of "chunks self" "manifest self" "[]"] by blast
  have "add_files emb d names self =
            Inr (self\<lparr>chunks := chunks self @ new_chunks d names,
                     embeddings := Some (emb_rows self @ map emb (map ctext (new_chunks d names))),
                     manifest := man', has_embedder := True\<rparr>)"
    using r by (cases "embeddings self")
      (auto simp: add_files_def Let_def emb_rows_def ctext_new_chunks)
  then show ?thesis using a by blast
qed

lemma fold_delete_map_of:
  "map_of (fold AList.delete R man) n = (if n \<in> set R then None else map_of man n)"
  by (induction R arbitrary: man) (auto simp: delete_conv')

lemma fold_delete_keys:
  "fst ` set (fold AList.delete R man) = fst ` set man - set R"
proof (induction R arbitrary: man)
  case Nil
  then show ?case by simp
next
  case (Cons a R)
  have "fst ` set (AList.delete a man) = fst ` set man - {a}"
    by (force simp: AList.delete_eq)
  then show ?case using Cons [of "AList.delete a man"] by auto
qed

lemma fold_delete_distinct:
  "distinct (map fst man) \<Longrightarrow> distinct (map fst (fold AList.delete R man))"
  by (induction R arbitrary: man) (auto simp: distinct_delete)

lemma rebuild_manifest_ranges_eq:
  "rebuild_manifest_ranges self = self\<lparr>manifest := rebuilt (chunks self) (manifest self)\<rparr>"
  by (simp add: rebuild_manifest_ranges_def rebuilt_def)

lemma diff_files_sets:
  assumes "diff_files man current = (needs, added, changed, removed)"
  shows "set added = fst ` set current - fst ` set man \<and>
     set removed = fst ` set man - fst ` set current \<and>
     set changed = {f. f \<in> fst ` set man \<and> f \<in> fst ` set current \<and> \<not> unchanged_in man current f} \<and>
     needs = (set added \<union> set removed \<union> set changed \<noteq> {})"
proof -
  have a: "added = sorted_list_of_set (set (map fst current) - set (map fst man))"
    and r: "removed = sorted_list_of_set (set (map fst man) - set (map fst current))"
    and c: "changed = sorted_list_of_set
            (Set.filter (\<lambda>f. map_of current f \<noteq> map_option hash (map_of man f))
               (set (map fst man) \<inter> set (map fst current)))"
    and n: "needs = (added \<noteq> [] \<or> removed \<noteq> [] \<or> changed \<noteq> [])"
    using assms unfolding diff_files_def Let_def prod.inject by blast+
  have sa: "set added = fst ` set current - fst ` set man" unfolding a by simp
  have sr: "set removed = fst ` set man - fst ` set current" unfolding r by simp
  have sc: "set changed = {f. f \<in> fst ` set man \<and> f \<in> fst ` set current \<and> \<not> unchanged_in man current f}"
    unfolding c by (auto simp: unchanged_in_def)
  have "needs = (set added \<noteq> {} \<or> set removed \<noteq> {} \<or> set changed \<noteq> {})"
    unfolding n by simp
  then show ?thesis using sa sr sc by blast
qed

lemma files_to_remove_set:
  "set (files_to_remove man current) =
     {f. f \<in> fst ` set man \<and> (f \<in> fst ` set current \<longrightarrow> \<not> unchanged_in man current f)}"
proof -
  obtain needs added changed removed where d: "diff_files man current = (needs, added, changed, removed)"
    by (metis prod_cases4)
  show ?thesis using diff_files_sets [OF d] by (auto simp: files_to_remove_def d)
qed

lemma files_to_add_set:
  "set (files_to_add man current) =
     {f. f \<in> fst ` set current \<and> (f \<in> fst ` set man \<longrightarrow> \<not> unchanged_in man current f)}"
proof -
  obtain needs added changed removed where d: "diff_files man current = (needs, added, changed, removed)"
    by (metis prod_cases4)
  show ?thesis using diff_files_sets [OF d] by (auto simp: files_to_add_def d)
qed

lemma diff_files_needs:
  "fst (diff_files man current) \<longleftrightarrow>
     (fst ` set man \<noteq> fst ` set current \<or> (\<exists>f\<in>fst ` set man. \<not> unchanged_in man current f))"
proof -
  obtain needs added changed removed where d: "diff_files man current = (needs, added, changed, removed)"
    by (metis prod_cases4)
  have f: "fst (diff_files man current) = needs" by (simp add: d)
  have sa: "set added = fst ` set current - fst ` set man"
    and sr: "set removed = fst ` set man - fst ` set current"
    and sc: "set changed = {f. f \<in> fst ` set man \<and> f \<in> fst ` set current \<and> \<not> unchanged_in man current f}"
    and n: "needs = (set added \<union> set removed \<union> set changed \<noteq> {})"
    using diff_files_sets [OF d] by blast+
  show ?thesis unfolding f n sa sr sc by blast
qed

lemma reindex_noop:
  assumes "\<not> fst (diff_files (manifest self) (compute_file_hashes d))"
  shows "reindex emb d self dk = Inr (self, dk)"
proof -
  obtain needs added changed removed where
    df: "diff_files (manifest self) (compute_file_hashes d) = (needs, added, changed, removed)"
    by (metis prod_cases4)
  have n: "\<not> needs" using assms df by simp
  have nr: "needs_reindex d self = ((False, added, changed, removed), self)"
    using df n by (simp add: needs_reindex_def)
  show ?thesis
    unfolding reindex_def nr
    by (simp only: prod.case simp_thms if_True)
qed

lemma reindex_needs:
  assumes "fst (diff_files (manifest self) (compute_file_hashes d))"
  shows "reindex emb d self dk =
     (case (if files_to_remove (manifest self) (compute_file_hashes d) \<noteq> []
            then remove_files (files_to_remove (manifest self) (compute_file_hashes d)) self
            else Inr self) of
        Inl e \<Rightarrow> Inl e
      | Inr self1 \<Rightarrow>
          (case (if files_to_add (manifest self) (compute_file_hashes d) \<noteq> []
                 then add_files emb d (files_to_add (manifest self) (compute_file_hashes d)) self1
                 else Inr self1) of
             Inl e \<Rightarrow> Inl e
           | Inr self2 \<Rightarrow>
               Inr (rebuild_manifest_ranges (self2\<lparr>bm25 := fit (bm25 self2) (map ctext (chunks self2))\<rparr>),
                    save (rebuild_manifest_ranges (self2\<lparr>bm25 := fit (bm25 self2) (map ctext (chunks self2))\<rparr>)) dk)))"
proof -
  obtain needs added changed removed where
    df: "diff_files (manifest self) (compute_file_hashes d) = (needs, added, changed, removed)"
    by (metis prod_cases4)
  have n: "needs" using assms df by simp
  have nr: "needs_reindex d self = ((True, added, changed, removed), self)"
    using df n by (simp add: needs_reindex_def)
  have R: "sorted_list_of_set (set removed \<union> set changed)
            = files_to_remove (manifest self) (compute_file_hashes d)"
    by (simp only: files_to_remove_def df prod.case)
  have A: "sorted_list_of_set (set added \<union> set changed)
            = files_to_add (manifest self) (compute_file_hashes d)"
    by (simp only: files_to_add_def df prod.case)
  show ?thesis
    unfolding reindex_def nr
    by (simp only: prod.case Let_def R A not_True_eq_False if_False)
qed

lemma added_entries_Nil: "added_entries d fh [] man man"
  by (simp add: added_entries_def)

lemma add_phase:
  assumes "\<forall>n\<in>set A. (\<exists>t. load_document d n = Inr t) \<and>
             (\<exists>h. map_of (compute_file_hashes d) n = Some h)"
  shows "\<exists>s2. (if A \<noteq> [] then add_files emb d A s1 else Inr s1) = Inr s2 \<and>
           chunks s2 = chunks s1 @ new_chunks d A \<and>
           emb_rows s2 = emb_rows s1 @ map emb (map ctext (new_chunks d A)) \<and>
           bm25 s2 = bm25 s1 \<and>
           added_entries d (compute_file_hashes d) A (manifest s1) (manifest s2)"
proof (cases "A = []")
  case True
  then show ?thesis by (simp add: added_entries_Nil)
next
  case False
  obtain man' where r: "add_files emb d A s1 =
            Inr (s1\<lparr>chunks := chunks s1 @ new_chunks d A,
                     embeddings := Some (emb_rows s1 @ map emb (map ctext (new_chunks d A))),
                     manifest := man', has_embedder := True\<rparr>)"
    and a: "added_entries d (compute_file_hashes d) A (manifest s1) man'"
    using add_files_run [OF assms, of emb s1] by blast
  show ?thesis using False r a by (simp add: emb_rows_def)
qed

lemma remove_phase:
  assumes "length (emb_rows s) = length (chunks s)"
  shows "\<exists>s1. (if R \<noteq> [] then remove_files R s else Inr s) = Inr s1 \<and>
           chunks s1 = filter (\<lambda>c. filename c \<notin> set R) (chunks s) \<and>
           emb_rows s1 = map snd (filter (\<lambda>p. filename (fst p) \<notin> set R) (zip (chunks s) (emb_rows s))) \<and>
           manifest s1 = fold AList.delete R (manifest s) \<and>
           bm25 s1 = bm25 s"
proof (cases "R = []")
  case True
  then show ?thesis using assms by simp
next
  case False
  have e: "filter (\<lambda>c. filename c \<notin> set R) (chunks s) = [] \<Longrightarrow>
        filter (\<lambda>p. filename (fst p) \<notin> set R) (zip (chunks s) (emb_rows s)) = []"
    by (auto simp: filter_empty_conv dest: set_zip_leftD)
  show ?thesis using False remove_files_eq [OF assms, of R] e by (auto simp: emb_rows_def)
qed

lemma remove_files_manifest:
  "remove_files R s = Inr s1 \<Longrightarrow> manifest s1 = fold AList.delete R (manifest s)"
  unfolding remove_files_def Let_def
  by (cases "embeddings s") (auto split: if_splits)

lemma remove_phase_manifest:
  "(if R \<noteq> [] then remove_files R s else Inr s) = Inr s1 \<Longrightarrow>
     manifest s1 = fold AList.delete R (manifest s)"
  by (cases "R = []") (auto dest: remove_files_manifest)

lemma files_to_add_loadable:
  "\<forall>n\<in>set (files_to_add man (compute_file_hashes d)).
     (\<exists>t. load_document d n = Inr t) \<and> (\<exists>h. map_of (compute_file_hashes d) n = Some h)"
  using hashed_loadable [of _ d] by (auto simp: files_to_add_set)

lemma rebuilt_keys: "map fst (rebuilt cs man) = map fst man"
proof -
  have "map fst (fold (\<lambda>(name, (start, stop)) man.
             case map_of man name of
               None \<Rightarrow> man
             | Some en \<Rightarrow> AList.update name (en\<lparr>chunk_start := start, chunk_end := stop\<rparr>) man) rs man)
        = map fst man" for rs
  proof (induction rs arbitrary: man)
    case Nil
    then show ?case by simp
  next
    case (Cons r rs)
    obtain name start stop where r: "r = (name, (start, stop))" by (metis prod_cases3)
    show ?case
    proof (cases "map_of man name")
      case None
      then show ?thesis using Cons by (simp add: r)
    next
      case (Some en)
      then have "name \<in> set (map fst man)" by (metis map_of_eq_None_iff option.distinct(1) set_map)
      then have "map fst (AList.update name (en\<lparr>chunk_start := start, chunk_end := stop\<rparr>) man) = map fst man"
        by (simp add: update_keys)
      then show ?thesis using Cons Some by (simp add: r)
    qed
  qed
  then show ?thesis by (simp add: rebuilt_def)
qed

lemma rebuilt_hash: "map_option hash (map_of (rebuilt cs man) n) = map_option hash (map_of man n)"
proof -
  have "map_option hash (map_of (fold (\<lambda>(name, (start, stop)) man.
             case map_of man name of
               None \<Rightarrow> man
             | Some en \<Rightarrow> AList.update name (en\<lparr>chunk_start := start, chunk_end := stop\<rparr>) man) rs man) n)
        = map_option hash (map_of man n)" for rs
  proof (induction rs arbitrary: man)
    case Nil
    then show ?case by simp
  next
    case (Cons r rs)
    obtain name start stop where r: "r = (name, (start, stop))" by (metis prod_cases3)
    show ?case
    proof (cases "map_of man name")
      case None
      then show ?thesis using Cons by (simp add: r)
    next
      case (Some en)
      then show ?thesis using Cons [of "AList.update name (en\<lparr>chunk_start := start, chunk_end := stop\<rparr>) man"]
        by (simp add: r update_conv')
    qed
  qed
  then show ?thesis by (simp add: rebuilt_def)
qed

lemma reindex_run:
  assumes "fst (diff_files (manifest s) (compute_file_hashes d))"
    and "length (emb_rows s) = length (chunks s)"
  shows "\<exists>s'. reindex emb d s dk = Inr (s', save s' dk) \<and>
     chunks s' = filter (\<lambda>c. filename c \<notin> set (files_to_remove (manifest s) (compute_file_hashes d))) (chunks s)
                 @ new_chunks d (files_to_add (manifest s) (compute_file_hashes d)) \<and>
     emb_rows s' = map snd (filter (\<lambda>p. filename (fst p) \<notin> set (files_to_remove (manifest s) (compute_file_hashes d)))
                      (zip (chunks s) (emb_rows s)))
                 @ map emb (map ctext (new_chunks d (files_to_add (manifest s) (compute_file_hashes d)))) \<and>
     bm25 s' = fit (bm25 s) (map ctext (chunks s')) \<and>
     (\<exists>man2. manifest s' = rebuilt (chunks s') man2 \<and>
        added_entries d (compute_file_hashes d) (files_to_add (manifest s) (compute_file_hashes d))
          (fold AList.delete (files_to_remove (manifest s) (compute_file_hashes d)) (manifest s)) man2)"
proof -
  let ?R = "files_to_remove (manifest s) (compute_file_hashes d)"
  let ?A = "files_to_add (manifest s) (compute_file_hashes d)"
  obtain s1 where s1: "(if ?R \<noteq> [] then remove_files ?R s else Inr s) = Inr s1"
    "chunks s1 = filter (\<lambda>c. filename c \<notin> set ?R) (chunks s)"
    "emb_rows s1 = map snd (filter (\<lambda>p. filename (fst p) \<notin> set ?R) (zip (chunks s) (emb_rows s)))"
    "manifest s1 = fold AList.delete ?R (manifest s)" "bm25 s1 = bm25 s"
    using remove_phase [OF assms(2), of ?R] by blast
  obtain s2 where s2: "(if ?A \<noteq> [] then add_files emb d ?A s1 else Inr s1) = Inr s2"
    "chunks s2 = chunks s1 @ new_chunks d ?A"
    "emb_rows s2 = emb_rows s1 @ map emb (map ctext (new_chunks d ?A))"
    "bm25 s2 = bm25 s1"
    "added_entries d (compute_file_hashes d) ?A (manifest s1) (manifest s2)"
    using add_phase [OF files_to_add_loadable, of "manifest s" d emb s1] by blast
  let ?s' = "rebuild_manifest_ranges (s2\<lparr>bm25 := fit (bm25 s2) (map ctext (chunks s2))\<rparr>)"
  have run: "reindex emb d s dk = Inr (?s', save ?s' dk)"
    by (simp only: reindex_needs [OF assms(1)] s1(1) s2(1) sum.case)
  have c: "chunks ?s' = chunks s2" and e: "emb_rows ?s' = emb_rows s2"
    and b: "bm25 ?s' = fit (bm25 s2) (map ctext (chunks s2))"
    and m: "manifest ?s' = rebuilt (chunks s2) (manifest s2)"
    by (simp_all add: rebuild_manifest_ranges_eq emb_rows_def)
  have c': "chunks ?s' = filter (\<lambda>c. filename c \<notin> set ?R) (chunks s) @ new_chunks d ?A"
    using c s1(2) s2(2) by simp
  have e': "emb_rows ?s' = map snd (filter (\<lambda>p. filename (fst p) \<notin> set ?R) (zip (chunks s) (emb_rows s)))
        @ map emb (map ctext (new_chunks d ?A))"
    using e s1(3) s2(3) by simp
  have b': "bm25 ?s' = fit (bm25 s) (map ctext (chunks ?s'))"
    using b c s1(5) s2(4) by simp
  have m': "\<exists>man2. manifest ?s' = rebuilt (chunks ?s') man2 \<and>
        added_entries d (compute_file_hashes d) ?A (fold AList.delete ?R (manifest s)) man2"
    using m c s2(5) s1(4) by (intro exI [of _ "manifest s2"]) simp
  show ?thesis
    using run c' e' b' m' by (intro exI [of _ ?s']) (intro conjI)
qed

lemma reindex_manifest:
  assumes "reindex emb d s dk = Inr (s', dk')"
    and "fst (diff_files (manifest s) (compute_file_hashes d))"
  shows "\<exists>man2. manifest s' = rebuilt (chunks s') man2 \<and>
        added_entries d (compute_file_hashes d) (files_to_add (manifest s) (compute_file_hashes d))
          (fold AList.delete (files_to_remove (manifest s) (compute_file_hashes d)) (manifest s)) man2"
proof -
  let ?R = "files_to_remove (manifest s) (compute_file_hashes d)"
  let ?A = "files_to_add (manifest s) (compute_file_hashes d)"
  from assms(1) obtain s1 where s1: "(if ?R \<noteq> [] then remove_files ?R s else Inr s) = Inr s1"
    unfolding reindex_needs [OF assms(2)]
    by (cases "if ?R \<noteq> [] then remove_files ?R s else Inr s") auto
  have m1: "manifest s1 = fold AList.delete ?R (manifest s)"
    by (rule remove_phase_manifest [OF s1])
  obtain s2 where s2: "(if ?A \<noteq> [] then add_files emb d ?A s1 else Inr s1) = Inr s2"
    "added_entries d (compute_file_hashes d) ?A (manifest s1) (manifest s2)"
    using add_phase [OF files_to_add_loadable, of "manifest s" d emb s1] by blast
  have "s' = rebuild_manifest_ranges (s2\<lparr>bm25 := fit (bm25 s2) (map ctext (chunks s2))\<rparr>)"
    using assms(1) by (simp only: reindex_needs [OF assms(2)] s1 s2(1) sum.case sum.inject prod.inject)
  then have "manifest s' = rebuilt (chunks s') (manifest s2)"
    by (simp add: rebuild_manifest_ranges_eq)
  then show ?thesis using s2(2) m1 by auto
qed

lemma load_documents_loop_total:
  "set fs \<subseteq> set d \<Longrightarrow> \<exists>docs'. load_documents_loop d fs docs = Inr docs'"
proof (induction fs arbitrary: docs)
  case Nil
  then show ?case by simp
next
  case (Cons f fs)
  show ?case
  proof (cases "supported (fname f)")
    case True
    then obtain t where "load_document d (fname f) = Inr t"
      using load_document_present [of "fname f" d] Cons.prems by auto
    then show ?thesis using True Cons by auto
  next
    case False
    then show ?thesis using Cons by auto
  qed
qed

lemma load_documents_total: "\<exists>docs. load_documents d = Inr docs"
  unfolding load_documents_def by (rule load_documents_loop_total) simp

lemma build_run:
  "\<exists>s' docs cs man. build emb d s dk = Inr (s', save s' dk) \<and>
     load_documents d = Inr docs \<and>
     build_loop (compute_file_hashes d) docs [] [] = (cs, man) \<and>
     chunks s' = cs \<and> embeddings s' = Some (map emb (map ctext cs)) \<and> manifest s' = man \<and>
     bm25 s' = fit (bm25 s) (map ctext cs)"
proof -
  obtain docs where l: "load_documents d = Inr docs" using load_documents_total by blast
  obtain cs man where b: "build_loop (compute_file_hashes d) docs [] [] = (cs, man)"
    by (cases "build_loop (compute_file_hashes d) docs [] []") auto
  let ?s' = "s\<lparr>chunks := cs, manifest := man, has_embedder := True,
               embeddings := Some (map emb (map ctext cs)),
               bm25 := fit (bm25 s) (map ctext cs)\<rparr>"
  have "build emb d s dk = Inr (?s', save ?s' dk)"
    by (simp add: build_def l b Let_def)
  then show ?thesis using l b by (intro exI [of _ ?s'] exI [of _ docs] exI [of _ cs] exI [of _ man]) simp
qed

lemma build_aligned:
  assumes "build emb d s dk = Inr (s', dk')"
  shows "aligned emb s'"
proof -
  obtain s0 cs where "build emb d s dk = Inr (s0, save s0 dk)" "chunks s0 = cs"
    "embeddings s0 = Some (map emb (map ctext cs))" "bm25 s0 = fit (bm25 s) (map ctext cs)"
    using build_run [of emb d s dk] by blast
  then have "chunks s' = cs" "embeddings s' = Some (map emb (map ctext cs))"
    "bm25 s' = fit (bm25 s) (map ctext cs)"
    using assms by auto
  then show ?thesis by (simp add: aligned_def emb_rows_def fit_idem comp_def)
qed

lemma filter_zip_map:
  "map snd (filter (\<lambda>p. P (fst p)) (zip xs (map g xs))) = map g (filter P xs)"
  by (induction xs) auto

lemma reindex_aligned:
  assumes "aligned emb s"
  shows "\<exists>s' dk'. reindex emb d s dk = Inr (s', dk') \<and> aligned emb s'"
proof (cases "fst (diff_files (manifest s) (compute_file_hashes d))")
  case False
  then show ?thesis using assms by (auto simp: reindex_noop)
next
  case True
  let ?R = "files_to_remove (manifest s) (compute_file_hashes d)"
  let ?A = "files_to_add (manifest s) (compute_file_hashes d)"
  have rows: "emb_rows s = map (\<lambda>c. emb (ctext c)) (chunks s)"
    using assms by (simp add: aligned_def)
  then have len: "length (emb_rows s) = length (chunks s)" by simp
  obtain s' where r: "reindex emb d s dk = Inr (s', save s' dk)"
    and c: "chunks s' = filter (\<lambda>c. filename c \<notin> set ?R) (chunks s) @ new_chunks d ?A"
    and e: "emb_rows s' = map snd (filter (\<lambda>p. filename (fst p) \<notin> set ?R) (zip (chunks s) (emb_rows s)))
                 @ map emb (map ctext (new_chunks d ?A))"
    and b: "bm25 s' = fit (bm25 s) (map ctext (chunks s'))"
    using reindex_run [OF True len, of emb dk] by blast
  have "emb_rows s' = map (\<lambda>c. emb (ctext c)) (chunks s')"
    unfolding e c rows
    using filter_zip_map [of "\<lambda>c. filename c \<notin> set ?R" "chunks s" "\<lambda>c. emb (ctext c)"]
    by (simp add: comp_def)
  moreover have "bm25 s' = fit (bm25 s') (map ctext (chunks s'))"
    using b fit_idem [of "bm25 s" "map ctext (chunks s')"] by simp
  ultimately have "aligned emb s'" by (simp add: aligned_def)
  then show ?thesis using r by blast
qed















lemma one_file_build:
  "build length [\<lparr>fname = ''a.pdf'', digest = ''h1'', body = ''Hello world.''\<rparr>]
       (HybridIndex_init :: nat HybridIndex)
       \<lparr>manifest_json = None, chunks_json = None, embeddings_npy = None\<rparr>
     = Inr (\<lparr>chunks = [\<lparr>ctext = ''Hello world.'', filename = ''a.pdf'', chunk_idx = 0\<rparr>],
             embeddings = Some [12],
             manifest = [(''a.pdf'', \<lparr>hash = ''h1'', chunk_start = 0, chunk_end = 1\<rparr>)],
             bm25 = fit BM25_new [''Hello world.''], has_embedder = True\<rparr>,
            \<lparr>manifest_json = Some [(''a.pdf'', \<lparr>hash = ''h1'', chunk_start = 0, chunk_end = 1\<rparr>)],
             chunks_json = Some [\<lparr>ctext = ''Hello world.'', filename = ''a.pdf'', chunk_idx = 0\<rparr>],
             embeddings_npy = Some [12]\<rparr>)"
proof -
  let ?D = "[\<lparr>fname = ''a.pdf'', digest = ''h1'', body = ''Hello world.''\<rparr>]"
  have l: "load_documents ?D = Inr [(''a.pdf'', ''Hello world.'')]" by code_simp
  have h: "compute_file_hashes ?D = [(''a.pdf'', ''h1'')]" by code_simp
  have b: "build_loop [(''a.pdf'', ''h1'')] [(''a.pdf'', ''Hello world.'')] [] []
      = ([\<lparr>ctext = ''Hello world.'', filename = ''a.pdf'', chunk_idx = 0\<rparr>],
         [(''a.pdf'', \<lparr>hash = ''h1'', chunk_start = 0, chunk_end = 1\<rparr>)])"
    by code_simp
  show ?thesis
    by (simp add: build_def l h b save_def HybridIndex_init_def del: build_loop.simps)
qed

lemma emptied_reindex:
  "reindex length []
       \<lparr>chunks = [\<lparr>ctext = ''Hello world.'', filename = ''a.pdf'', chunk_idx = 0\<rparr>],
        embeddings = Some [12::nat],
        manifest = [(''a.pdf'', \<lparr>hash = ''h1'', chunk_start = 0, chunk_end = 1\<rparr>)],
        bm25 = fit BM25_new [''Hello world.''], has_embedder = True\<rparr>
       \<lparr>manifest_json = Some [(''a.pdf'', \<lparr>hash = ''h1'', chunk_start = 0, chunk_end = 1\<rparr>)],
        chunks_json = Some [\<lparr>ctext = ''Hello world.'', filename = ''a.pdf'', chunk_idx = 0\<rparr>],
        embeddings_npy = Some [12]\<rparr>
     = Inr (\<lparr>chunks = [], embeddings = None, manifest = [],
             bm25 = fit (fit BM25_new [''Hello world.'']) [], has_embedder = True\<rparr>,
            \<lparr>manifest_json = Some [], chunks_json = Some [], embeddings_npy = Some [12]\<rparr>)"
proof -
  have h: "compute_file_hashes [] = []" by code_simp
  have d: "diff_files [(''a.pdf'', \<lparr>hash = ''h1'', chunk_start = 0, chunk_end = Suc 0\<rparr>)] []
      = (True, [], [], [''a.pdf''])" by code_simp
  have r: "ranges_loop [] [] = []" by simp
  show ?thesis
    by (simp add: reindex_def needs_reindex_def h d remove_files_def rebuild_manifest_ranges_def
        save_def AList.delete_eq)
qed

lemma stale_load:
  "load \<lparr>manifest_json = Some [], chunks_json = Some [], embeddings_npy = Some [12::nat]\<rparr>
     = Inr (HybridIndex_init\<lparr>embeddings := Some [12]\<rparr>)"
  by (simp add: load_def HybridIndex_init_def)

lemma stale_reindex:
  "reindex length [\<lparr>fname = ''b.pdf'', digest = ''h3'', body = ''Hi.''\<rparr>]
       (HybridIndex_init\<lparr>embeddings := Some [12::nat]\<rparr>)
       \<lparr>manifest_json = Some [], chunks_json = Some [], embeddings_npy = Some [12]\<rparr>
     = Inr (\<lparr>chunks = [\<lparr>ctext = ''Hi.'', filename = ''b.pdf'', chunk_idx = 0\<rparr>],
             embeddings = Some [12, 3],
             manifest = [(''b.pdf'', \<lparr>hash = ''h3'', chunk_start = 0, chunk_end = 1\<rparr>)],
             bm25 = fit BM25_new [''Hi.''], has_embedder = True\<rparr>,
            \<lparr>manifest_json = Some [(''b.pdf'', \<lparr>hash = ''h3'', chunk_start = 0, chunk_end = 1\<rparr>)],
             chunks_json = Some [\<lparr>ctext = ''Hi.'', filename = ''b.pdf'', chunk_idx = 0\<rparr>],
             embeddings_npy = Some [12, 3]\<rparr>)"
proof -
  let ?D = "[\<lparr>fname = ''b.pdf'', digest = ''h3'', body = ''Hi.''\<rparr>]"
  have h: "compute_file_hashes ?D = [(''b.pdf'', ''h3'')]" by code_simp
  have d: "diff_files [] [(''b.pdf'', ''h3'')] = (True, [''b.pdf''], [], [])" by code_simp
  have a: "add_loop ?D [(''b.pdf'', ''h3'')] [''b.pdf''] [] [] []
     = Inr ([\<lparr>ctext = ''Hi.'', filename = ''b.pdf'', chunk_idx = 0\<rparr>],
            [(''b.pdf'', \<lparr>hash = ''h3'', chunk_start = 0, chunk_end = 1\<rparr>)], [''Hi.''])"
    by code_simp
  show ?thesis
    by (simp add: reindex_def needs_reindex_def h d add_files_def a rebuild_manifest_ranges_def
        HybridIndex_init_def save_def Let_def del: add_loop.simps)
qed

section \<open>Properties of the index\<close>

text \<open>
  C7. When \<open>reindex\<close> has completed, a second \<open>reindex\<close> over the same source directory,
  from the state and the index directory that the first call left, returns that state and
  that index directory: the chunk list, the manifest, the embedding matrix, the BM25 model
  and the saved files are unchanged.
\<close>

theorem reindex_idempotent:
  assumes "reindex emb d s dk = Inr (s1, dk1)"
  shows "reindex emb d s1 dk1 = Inr (s1, dk1)"
proof (cases "fst (diff_files (manifest s) (compute_file_hashes d))")
  case False
  then have "reindex emb d s dk = Inr (s, dk)" by (rule reindex_noop)
  then have "s1 = s" "dk1 = dk" using assms by simp_all
  then show ?thesis using False by (simp add: reindex_noop)
next
  case True
  let ?cur = "compute_file_hashes d"
  let ?R = "files_to_remove (manifest s) ?cur"
  let ?A = "files_to_add (manifest s) ?cur"
  obtain man2 where m: "manifest s1 = rebuilt (chunks s1) man2"
    and a: "added_entries d ?cur ?A (fold AList.delete ?R (manifest s)) man2"
    using reindex_manifest [OF assms True] by blast
  have k2: "fst ` set man2 = (fst ` set (manifest s) - set ?R) \<union> set ?A"
    using a by (simp add: added_entries_def fold_delete_keys)
  have keys1: "fst ` set (manifest s1) = fst ` set man2"
    using rebuilt_keys [of "chunks s1" man2] m by (metis set_map)
  have keys: "fst ` set (manifest s1) = fst ` set ?cur"
    unfolding keys1 k2 files_to_remove_set files_to_add_set by blast
  have unch: "unchanged_in (manifest s1) ?cur f" if f: "f \<in> fst ` set (manifest s1)" for f
  proof -
    have h: "map_option hash (map_of (manifest s1) f) = map_option hash (map_of man2 f)"
      unfolding m by (rule rebuilt_hash)
    show ?thesis
    proof (cases "f \<in> set ?A")
      case True
      then obtain e where "map_of man2 f = Some e" "Some (hash e) = map_of ?cur f"
        using a by (auto simp: added_entries_def)
      then show ?thesis using h by (simp add: unchanged_in_def)
    next
      case False
      then have eq: "map_of man2 f = map_of (fold AList.delete ?R (manifest s)) f"
        using a by (simp add: added_entries_def)
      have "f \<in> fst ` set (manifest s) - set ?R" using f False keys1 k2 by blast
      then have notR: "f \<notin> set ?R" and old: "f \<in> fst ` set (manifest s)" by auto
      have new: "f \<in> fst ` set ?cur" using f keys by simp
      have "unchanged_in (manifest s) ?cur f"
        using notR old new by (simp add: files_to_remove_set)
      then show ?thesis using h eq notR by (simp add: unchanged_in_def fold_delete_map_of)
    qed
  qed
  have "\<not> fst (diff_files (manifest s1) ?cur)"
    unfolding diff_files_needs using keys unch by blast
  then show ?thesis by (rule reindex_noop)
qed

theorem reindex_idempotent_witness:
  "\<exists>s1 dk1.
     reindex length [\<lparr>fname = ''a.pdf'', digest = ''h1'', body = ''Hello world.''\<rparr>]
       (HybridIndex_init :: nat HybridIndex)
       \<lparr>manifest_json = None, chunks_json = None, embeddings_npy = None\<rparr> = Inr (s1, dk1) \<and>
     chunks s1 = [\<lparr>ctext = ''Hello world.'', filename = ''a.pdf'', chunk_idx = 0\<rparr>] \<and>
     embeddings s1 = Some [12] \<and>
     reindex length [\<lparr>fname = ''a.pdf'', digest = ''h1'', body = ''Hello world.''\<rparr>] s1 dk1
       = Inr (s1, dk1)"
proof -
  let ?D = "[\<lparr>fname = ''a.pdf'', digest = ''h1'', body = ''Hello world.''\<rparr>]"
  let ?s = "HybridIndex_init :: nat HybridIndex"
  let ?dk = "\<lparr>manifest_json = None, chunks_json = None, embeddings_npy = None\<rparr> :: nat disk"
  have m: "manifest ?s = []" "chunks ?s = []" "emb_rows ?s = []"
    by (simp_all add: HybridIndex_init_def emb_rows_def)
  have h: "compute_file_hashes ?D = [(''a.pdf'', ''h1'')]" by code_simp
  have d: "diff_files [] [(''a.pdf'', ''h1'')] = (True, [''a.pdf''], [], [])" by code_simp
  have A: "files_to_add [] [(''a.pdf'', ''h1'')] = [''a.pdf'']"
    and R: "files_to_remove [] [(''a.pdf'', ''h1'')] = []"
    by (simp_all add: files_to_add_def files_to_remove_def d)
  have n: "new_chunks ?D [''a.pdf''] = [\<lparr>ctext = ''Hello world.'', filename = ''a.pdf'', chunk_idx = 0\<rparr>]"
    by code_simp
  have needs: "fst (diff_files (manifest ?s) (compute_file_hashes ?D))" by (simp add: m h d)
  have len: "length (emb_rows ?s) = length (chunks ?s)" by (simp add: m)
  obtain s1 where run: "reindex length ?D ?s ?dk = Inr (s1, save s1 ?dk)"
    and c0: "chunks s1 = filter (\<lambda>c. filename c \<notin> set (files_to_remove (manifest ?s) (compute_file_hashes ?D))) (chunks ?s)
                 @ new_chunks ?D (files_to_add (manifest ?s) (compute_file_hashes ?D))"
    and e0: "emb_rows s1 = map snd (filter (\<lambda>p. filename (fst p) \<notin> set (files_to_remove (manifest ?s) (compute_file_hashes ?D)))
                      (zip (chunks ?s) (emb_rows ?s)))
                 @ map length (map ctext (new_chunks ?D (files_to_add (manifest ?s) (compute_file_hashes ?D))))"
    using reindex_run [OF needs len, of length ?dk] by blast
  have c: "chunks s1 = [\<lparr>ctext = ''Hello world.'', filename = ''a.pdf'', chunk_idx = 0\<rparr>]"
    unfolding c0 m h A R n by simp
  have e: "emb_rows s1 = [12]"
    unfolding e0 m h A R n by simp
  have e': "embeddings s1 = Some [12]"
    using e by (cases "embeddings s1") (simp_all add: emb_rows_def)
  show ?thesis using run c e' reindex_idempotent [OF run] by blast
qed




text \<open>
  C1 fails for \<open>load\<close>. \<open>build\<close> over one file leaves an aligned index and saves one
  embedding row. \<open>reindex\<close> after the file is gone leaves an aligned empty index in
  memory, with \<open>embeddings = None\<close>; \<open>save\<close> then writes the empty manifest and chunk list
  and leaves \<open>embeddings.npy\<close> as it was, because it writes that file only when
  \<open>embeddings\<close> is not \<open>None\<close>. \<open>load\<close> reads back no chunk and one row, and a \<open>reindex\<close>
  over a new file stacks its row under the stale one: one chunk, two rows, and row 0 is
  not the embedding of chunk 0. In memory the alignment is kept: \<open>build_aligned\<close> and
  \<open>reindex_aligned\<close> above.
\<close>

theorem stale_embeddings_after_load:
  "\<exists>s1 dk1 s2 dk2 s3 s4 dk4.
     build length [\<lparr>fname = ''a.pdf'', digest = ''h1'', body = ''Hello world.''\<rparr>]
       (HybridIndex_init :: nat HybridIndex)
       \<lparr>manifest_json = None, chunks_json = None, embeddings_npy = None\<rparr> = Inr (s1, dk1) \<and>
     aligned length s1 \<and>
     reindex length [] s1 dk1 = Inr (s2, dk2) \<and>
     chunks s2 = [] \<and> embeddings s2 = None \<and> aligned length s2 \<and>
     dk2 = \<lparr>manifest_json = Some [], chunks_json = Some [], embeddings_npy = Some [12]\<rparr> \<and>
     load dk2 = Inr s3 \<and>
     chunks s3 = [] \<and> embeddings s3 = Some [12] \<and> \<not> aligned length s3 \<and>
     reindex length [\<lparr>fname = ''b.pdf'', digest = ''h3'', body = ''Hi.''\<rparr>] s3 dk2 = Inr (s4, dk4) \<and>
     chunks s4 = [\<lparr>ctext = ''Hi.'', filename = ''b.pdf'', chunk_idx = 0\<rparr>] \<and>
     embeddings s4 = Some [12, 3] \<and> \<not> aligned length s4"
proof -
  let ?s1 = "\<lparr>chunks = [\<lparr>ctext = ''Hello world.'', filename = ''a.pdf'', chunk_idx = 0\<rparr>],
             embeddings = Some [12::nat],
             manifest = [(''a.pdf'', \<lparr>hash = ''h1'', chunk_start = 0, chunk_end = 1\<rparr>)],
             bm25 = fit BM25_new [''Hello world.''], has_embedder = True\<rparr>"
  let ?s2 = "\<lparr>chunks = [], embeddings = None :: nat list option, manifest = [],
             bm25 = fit (fit BM25_new [''Hello world.'']) [], has_embedder = True\<rparr>"
  let ?s3 = "HybridIndex_init\<lparr>embeddings := Some [12::nat]\<rparr>"
  let ?s4 = "\<lparr>chunks = [\<lparr>ctext = ''Hi.'', filename = ''b.pdf'', chunk_idx = 0\<rparr>],
             embeddings = Some [12::nat, 3],
             manifest = [(''b.pdf'', \<lparr>hash = ''h3'', chunk_start = 0, chunk_end = 1\<rparr>)],
             bm25 = fit BM25_new [''Hi.''], has_embedder = True\<rparr>"
  have a1: "aligned length ?s1" by (rule build_aligned [OF one_file_build])
  have a2: "aligned length ?s2"
    by (simp add: aligned_def emb_rows_def fit_idem)
  have n3: "\<not> aligned length ?s3" by (simp add: aligned_def emb_rows_def HybridIndex_init_def)
  have n4: "\<not> aligned length ?s4" by (simp add: aligned_def emb_rows_def)
  have c3: "chunks ?s3 = []" "embeddings ?s3 = Some [12]" by (simp_all add: HybridIndex_init_def)
  let ?dk1 = "\<lparr>manifest_json = Some [(''a.pdf'', \<lparr>hash = ''h1'', chunk_start = 0, chunk_end = 1\<rparr>)],
             chunks_json = Some [\<lparr>ctext = ''Hello world.'', filename = ''a.pdf'', chunk_idx = 0\<rparr>],
             embeddings_npy = Some [12::nat]\<rparr>"
  let ?dk2 = "\<lparr>manifest_json = Some [], chunks_json = Some [], embeddings_npy = Some [12::nat]\<rparr>"
  let ?dk4 = "\<lparr>manifest_json = Some [(''b.pdf'', \<lparr>hash = ''h3'', chunk_start = 0, chunk_end = 1\<rparr>)],
             chunks_json = Some [\<lparr>ctext = ''Hi.'', filename = ''b.pdf'', chunk_idx = 0\<rparr>],
             embeddings_npy = Some [12::nat, 3]\<rparr>"
  have c2: "chunks ?s2 = []" "embeddings ?s2 = None" by simp_all
  have c4: "chunks ?s4 = [\<lparr>ctext = ''Hi.'', filename = ''b.pdf'', chunk_idx = 0\<rparr>]"
    "embeddings ?s4 = Some [12, 3]" by simp_all
  show ?thesis
    apply (rule exI [of _ ?s1], rule exI [of _ ?dk1], rule exI [of _ ?s2], rule exI [of _ ?dk2],
        rule exI [of _ ?s3], rule exI [of _ ?s4], rule exI [of _ ?dk4])
    apply (intro conjI)
                  apply (rule one_file_build a1 emptied_reindex c2 a2 refl stale_load c3 n3
        stale_reindex c4 n4)+
    done
qed

end
